theory Spec2Isabelle
  imports Complex_Main "HOL-Library.Sublist"
begin

section \<open>Python text primitives used by the engine\<close>

text \<open>
  The engine (\<^verbatim>\<open>nl_to_sql_engine.py\<close>) works on Python \<^verbatim>\<open>str\<close> values.  They are
  embedded as \<^typ>\<open>string\<close>, a \<^typ>\<open>char\<close> being read as the code point of the same
  number (below 256).  The whitespace of \<^verbatim>\<open>str.strip\<close> and of the regular expression
  class \<^verbatim>\<open>\s\<close> is Python's whitespace in that range: tab, line feed, vertical tab, form
  feed, carriage return, the four separators \<^verbatim>\<open>\x1c\<close>..\<^verbatim>\<open>\x1f\<close>, the blank, the next-line
  character \<^verbatim>\<open>\x85\<close> and the no-break space \<^verbatim>\<open>\xa0\<close>.  \<^verbatim>\<open>str.upper\<close> is modelled on
  the ASCII letters: it turns \<^verbatim>\<open>a\<close>..\<^verbatim>\<open>z\<close> into \<^verbatim>\<open>A\<close>..\<^verbatim>\<open>Z\<close> and leaves the other characters
  alone.
\<close>

definition to_upper :: "char \<Rightarrow> char" where
  "to_upper c =
     (case map_of (zip ''abcdefghijklmnopqrstuvwxyz'' ''ABCDEFGHIJKLMNOPQRSTUVWXYZ'') c of
        None \<Rightarrow> c
      | Some u \<Rightarrow> u)"

definition upper :: "string \<Rightarrow> string" where
  "upper s = map to_upper s"

definition is_space :: "char \<Rightarrow> bool" where
  "is_space c \<longleftrightarrow>
     c \<in> set [CHR 0x09, CHR 0x0A, CHR 0x0B, CHR 0x0C, CHR 0x0D,
               CHR 0x1C, CHR 0x1D, CHR 0x1E, CHR 0x1F, CHR 0x20, CHR 0x85, CHR 0xA0]"

definition rstrip_ws :: "string \<Rightarrow> string" where
  "rstrip_ws s = rev (dropWhile is_space (rev s))"

definition strip :: "string \<Rightarrow> string" where
  \<comment> \<open>\<^verbatim>\<open>s.strip()\<close>\<close>
  "strip s = rstrip_ws (dropWhile is_space s)"

definition rstrip :: "string \<Rightarrow> char \<Rightarrow> string" where
  \<comment> \<open>\<^verbatim>\<open>s.rstrip(c)\<close> for a one-character argument\<close>
  "rstrip s c = rev (dropWhile (\<lambda>x. x = c) (rev s))"

definition startswith :: "string \<Rightarrow> string \<Rightarrow> bool" where
  \<comment> \<open>\<^verbatim>\<open>s.startswith(p)\<close>\<close>
  "startswith s p = prefix p s"

fun contains :: "string \<Rightarrow> string \<Rightarrow> bool" where
  \<comment> \<open>\<^verbatim>\<open>sub in s\<close>, written \<open>contains sub s\<close>\<close>
  "contains sub [] = (sub = [])"
| "contains sub (x # s) = (prefix sub (x # s) \<or> contains sub s)"

definition count :: "string \<Rightarrow> char \<Rightarrow> nat" where
  \<comment> \<open>\<^verbatim>\<open>s.count(c)\<close> for a one-character argument\<close>
  "count s c = length (filter (\<lambda>x. x = c) s)"

fun occurrences :: "string \<Rightarrow> string \<Rightarrow> nat" where
  \<comment> \<open>the number of positions of \<open>s\<close> at which \<open>sub\<close> starts\<close>
  "occurrences sub [] = (if sub = [] then 1 else 0)"
| "occurrences sub (x # s) = (if prefix sub (x # s) then 1 else 0) + occurrences sub s"

definition digit_char :: "nat \<Rightarrow> char" where
  "digit_char d = ''0123456789'' ! d"

function str_nat :: "nat \<Rightarrow> string" where
  "str_nat n = (if n < 10 then [digit_char n] else str_nat (n div 10) @ [digit_char (n mod 10)])"
  by pat_completeness auto
termination
  by (relation "measure id") auto

declare str_nat.simps [simp del]

definition str_int :: "int \<Rightarrow> string" where
  \<comment> \<open>\<^verbatim>\<open>str(i)\<close>, which is also what \<^verbatim>\<open>f'{i}'\<close> inserts\<close>
  "str_int i = (if i < 0 then CHR ''-'' # str_nat (nat (- i)) else str_nat (nat i))"


section \<open>The fragment of \<^verbatim>\<open>re\<close> the injection patterns use\<close>

text \<open>
  Every injection pattern is a sequence of single-character atoms, some of them
  under a star.  An atom is a literal (compared without regard to case, since the
  search runs with \<^verbatim>\<open>re.IGNORECASE\<close>), the class \<^verbatim>\<open>\s\<close>, or the dot, which matches
  every character but the line feed.
\<close>

datatype atom = Lit char | Space | Dot

datatype item = One atom | Many atom

fun atom_ok :: "atom \<Rightarrow> char \<Rightarrow> bool" where
  "atom_ok (Lit c) x = (to_upper x = to_upper c)"
| "atom_ok Space x = is_space x"
| "atom_ok Dot x = (x \<noteq> CHR 0x0A)"

fun match_here :: "item list \<Rightarrow> string \<Rightarrow> bool" where
  \<comment> \<open>some prefix of the text matches the whole pattern\<close>
  "match_here [] s = True"
| "match_here (One a # r) [] = False"
| "match_here (One a # r) (x # s) = (atom_ok a x \<and> match_here r s)"
| "match_here (Many a # r) [] = match_here r []"
| "match_here (Many a # r) (x # s) =
     (match_here r (x # s) \<or> (atom_ok a x \<and> match_here (Many a # r) s))"

fun re_search :: "item list \<Rightarrow> string \<Rightarrow> bool" where
  \<comment> \<open>\<^verbatim>\<open>re.search(p, s, re.IGNORECASE)\<close> finds a match\<close>
  "re_search p [] = match_here p []"
| "re_search p (x # s) = (match_here p (x # s) \<or> re_search p s)"

definition lits :: "string \<Rightarrow> item list" where
  "lits s = map (\<lambda>c. One (Lit c)) s"


section \<open>\<^verbatim>\<open>SQLValidator\<close>\<close>

definition FORBIDDEN_KEYWORDS :: "string set" where
  "FORBIDDEN_KEYWORDS =
     {''DROP'', ''DELETE'', ''INSERT'', ''UPDATE'', ''ALTER'', ''CREATE'', ''TRUNCATE'',
      ''GRANT'', ''REVOKE'', ''EXECUTE'', ''EXEC'', ''CALL'', '';--'', ''UNION'',
      ''INTO OUTFILE'', ''LOAD_FILE'', ''xp_cmdshell''}"

text \<open>
  \<^verbatim>\<open>FORBIDDEN_KEYWORDS\<close> is a Python set, and \<^verbatim>\<open>validate_query\<close> iterates over it.
  The order of that iteration is not fixed by the source (string hashes are salted per
  process), so the validator takes it as its first argument: a list \<open>ks\<close> with
  \<open>iteration_of ks\<close>.  \<open>written_order\<close> is one such list, the order of the set display.
\<close>

definition iteration_of :: "string list \<Rightarrow> bool" where
  "iteration_of ks \<longleftrightarrow> distinct ks \<and> set ks = FORBIDDEN_KEYWORDS"

definition written_order :: "string list" where
  "written_order =
     [''DROP'', ''DELETE'', ''INSERT'', ''UPDATE'', ''ALTER'', ''CREATE'', ''TRUNCATE'',
      ''GRANT'', ''REVOKE'', ''EXECUTE'', ''EXEC'', ''CALL'', '';--'', ''UNION'',
      ''INTO OUTFILE'', ''LOAD_FILE'', ''xp_cmdshell'']"

definition injection_patterns :: "(string \<times> item list) list" where
  \<comment> \<open>each pattern with its source text (\<open>CHR 0x5C\<close> is the backslash)\<close>
  "injection_patterns =
     [ ('';'' @ [CHR 0x5C] @ ''s*DROP'',
          One (Lit CHR '';'') # Many Space # lits ''DROP''),
       ('';'' @ [CHR 0x5C] @ ''s*DELETE'',
          One (Lit CHR '';'') # Many Space # lits ''DELETE''),
       (''--'' @ [CHR 0x5C] @ ''s'',
          lits ''--'' @ [One Space]),
       (''/'' @ [CHR 0x5C] @ ''*.*'' @ [CHR 0x5C] @ ''*/'',
          lits ''/*'' @ [Many Dot] @ lits ''*/''),
       (''@@version'',
          lits ''@@version''),
       (''benchmark'' @ [CHR 0x5C] @ ''s*'' @ [CHR 0x5C] @ ''('',
          lits ''benchmark'' @ [Many Space, One (Lit CHR ''('')]),
       (''sleep'' @ [CHR 0x5C] @ ''s*'' @ [CHR 0x5C] @ ''('',
          lits ''sleep'' @ [Many Space, One (Lit CHR ''('')]) ]"

fun first_forbidden :: "string list \<Rightarrow> string \<Rightarrow> string option" where
  \<comment> \<open>the loop \<^verbatim>\<open>for keyword in cls.FORBIDDEN_KEYWORDS: if keyword in query_upper\<close>\<close>
  "first_forbidden [] query_upper = None"
| "first_forbidden (keyword # ks) query_upper =
     (if contains keyword query_upper then Some keyword else first_forbidden ks query_upper)"

fun first_injection :: "(string \<times> item list) list \<Rightarrow> string \<Rightarrow> string option" where
  \<comment> \<open>the loop \<^verbatim>\<open>for pattern in injection_patterns: if re.search(pattern, query, re.IGNORECASE)\<close>\<close>
  "first_injection [] query = None"
| "first_injection ((pattern, compiled) # ps) query =
     (if re_search compiled query then Some pattern else first_injection ps query)"

definition validate_query :: "string list \<Rightarrow> string \<Rightarrow> bool \<times> string option" where
  "validate_query ks query =
     (let query_upper = upper query in
      case first_forbidden ks query_upper of
        Some keyword \<Rightarrow> (False, Some (''Forbidden operation detected: '' @ keyword))
      | None \<Rightarrow>
          if \<not> startswith (strip query_upper) ''SELECT'' then
            (False, Some ''Query must start with SELECT'')
          else if count query CHR '';'' > 1 then
            (False, Some ''Multiple statements not allowed'')
          else
            (case first_injection injection_patterns query of
               Some pattern \<Rightarrow> (False, Some (''Potential SQL injection detected: '' @ pattern))
             | None \<Rightarrow> (True, None)))"

definition sanitize_limit :: "string \<Rightarrow> int \<Rightarrow> string" where
  "sanitize_limit query max_limit =
     (if \<not> contains ''LIMIT'' (upper query)
      then rstrip query CHR '';'' @ '' LIMIT '' @ str_int max_limit @ '';''
      else query)"


section \<open>Python values, dictionaries and the outside world\<close>

datatype pyval =
    PNone
  | PBool bool
  | PInt int
  | PFloat rat
  | PStr string
  | PList "pyval list"
  | PDict "(string \<times> pyval) list"

type_synonym pydict = "(string \<times> pyval) list"

definition dget :: "pydict \<Rightarrow> string \<Rightarrow> pyval \<Rightarrow> pyval" where
  \<comment> \<open>\<^verbatim>\<open>d.get(k, dflt)\<close>\<close>
  "dget d k dflt = (case map_of d k of None \<Rightarrow> dflt | Some v \<Rightarrow> v)"

fun dset :: "pydict \<Rightarrow> string \<Rightarrow> pyval \<Rightarrow> pydict" where
  \<comment> \<open>\<^verbatim>\<open>d[k] = v\<close>\<close>
  "dset [] k v = [(k, v)]"
| "dset ((k', v') # d) k v = (if k' = k then (k, v) # d else (k', v') # dset d k v)"

fun truthy :: "pyval \<Rightarrow> bool" where
  "truthy PNone = False"
| "truthy (PBool b) = b"
| "truthy (PInt i) = (i \<noteq> 0)"
| "truthy (PFloat r) = (r \<noteq> 0)"
| "truthy (PStr s) = (s \<noteq> [])"
| "truthy (PList xs) = (xs \<noteq> [])"
| "truthy (PDict d) = (d \<noteq> [])"

fun type_name :: "pyval \<Rightarrow> string" where
  "type_name PNone = ''NoneType''"
| "type_name (PBool b) = ''bool''"
| "type_name (PInt i) = ''int''"
| "type_name (PFloat r) = ''float''"
| "type_name (PStr s) = ''str''"
| "type_name (PList xs) = ''list''"
| "type_name (PDict d) = ''dict''"

definition no_attribute :: "pyval \<Rightarrow> string \<Rightarrow> string" where
  \<comment> \<open>the text of the \<^verbatim>\<open>AttributeError\<close> raised by \<^verbatim>\<open>v.name\<close> (\<open>CHR 0x27\<close> is the quote)\<close>
  "no_attribute v name =
     [CHR 0x27] @ type_name v @ [CHR 0x27] @ '' object has no attribute '' @
     [CHR 0x27] @ name @ [CHR 0x27]"

datatype py_error = KeyError string

text \<open>
  What lies outside the engine is a parameter of the model: the order in which the
  forbidden set is iterated; the translation service together with \<^verbatim>\<open>json.loads\<close>
  (it raises, or yields the parsed response); the store (connecting, executing or
  fetching raises, or rows come back); the rendering service (\<open>None\<close> when it raises);
  and \<^verbatim>\<open>str\<close> on the value of a cell.
\<close>

datatype llm_outcome = Raises string | Parsed pyval

datatype db_outcome =
    ConnectRaises string    \<comment> \<open>\<^verbatim>\<open>psycopg2.connect\<close> raises: there is no connection\<close>
  | ExecuteRaises string    \<comment> \<open>\<^verbatim>\<open>conn.cursor\<close> or \<^verbatim>\<open>cursor.execute\<close> raises\<close>
  | FetchRaises string      \<comment> \<open>\<^verbatim>\<open>cursor.fetchall\<close> raises\<close>
  | Rows "pydict list"      \<comment> \<open>the rows fetched\<close>

record world =
  kw_order :: "string list"
  llm :: "string \<Rightarrow> llm_outcome"
  db :: "pyval \<Rightarrow> db_outcome"
  render :: "string \<Rightarrow> pyval \<Rightarrow> pydict list \<Rightarrow> string option"
  cell_str :: "pyval \<Rightarrow> string"

text \<open>
  The state of the store as the engine changes it: the connections that are open, and
  the arguments \<^verbatim>\<open>execute_query\<close> has been called with, oldest first.

  A connection is an object of the Python run.  In \<^verbatim>\<open>execute_query\<close> it is held by the
  local \<^verbatim>\<open>conn\<close> alone (and by the local \<^verbatim>\<open>cursor\<close>); the handler keeps neither of them
  nor the exception, of which it returns only \<^verbatim>\<open>str(e)\<close>.  So when \<^verbatim>\<open>execute_query\<close>
  returns, the object is freed, and psycopg2 closes a connection that is freed while it
  is still open: \<open>conn_dealloc\<close>.
\<close>

record store =
  open_connections :: nat
  calls :: "pyval list"

datatype conn = Open | Closed

definition psycopg2_connect :: "store \<Rightarrow> store" where
  "psycopg2_connect s = s\<lparr>open_connections := open_connections s + 1\<rparr>"

definition conn_close :: "store \<Rightarrow> store" where
  \<comment> \<open>\<^verbatim>\<open>conn.close()\<close> on an open connection\<close>
  "conn_close s = s\<lparr>open_connections := open_connections s - 1\<rparr>"

definition conn_dealloc :: "conn \<Rightarrow> store \<Rightarrow> store" where
  \<comment> \<open>the local \<^verbatim>\<open>conn\<close> goes out of scope in the given state\<close>
  "conn_dealloc c s =
     (case c of Open \<Rightarrow> s\<lparr>open_connections := open_connections s - 1\<rparr> | Closed \<Rightarrow> s)"


section \<open>\<^verbatim>\<open>NLToSQLConverter.generate_sql\<close>\<close>

definition translation_failed :: "string \<Rightarrow> pydict" where
  \<comment> \<open>the \<^verbatim>\<open>except Exception as e\<close> branch\<close>
  "translation_failed e =
     [(''success'', PBool False),
      (''error'', PStr (''Failed to generate SQL: '' @ e)),
      (''sql'', PNone)]"

definition generate_sql :: "world \<Rightarrow> string \<Rightarrow> pydict" where
  "generate_sql w natural_language_query =
     (case llm w natural_language_query of
        Raises e \<Rightarrow> translation_failed e
      | Parsed (PDict response_json) \<Rightarrow>
          (case dget response_json ''sql'' (PStr []) of
             PStr sql_query \<Rightarrow>
               (case validate_query (kw_order w) sql_query of
                  (is_valid, error) \<Rightarrow>
                    if \<not> is_valid then
                      [(''success'', PBool False),
                       (''error'', PStr (''Generated SQL failed validation: '' @
                                        (case error of None \<Rightarrow> ''None'' | Some r \<Rightarrow> r))),
                       (''sql'', PStr sql_query)]
                    else
                      dset (dset response_json ''sql'' (PStr (sanitize_limit sql_query 1000)))
                        ''success'' (PBool True))
           | v \<Rightarrow> translation_failed (no_attribute v ''upper''))
      | Parsed v \<Rightarrow> translation_failed (no_attribute v ''get''))"


section \<open>\<^verbatim>\<open>DatabaseExecutor.execute_query\<close>\<close>

record exec_result =
  success :: bool
  data :: "pydict list option"
  row_count :: nat
  error :: "string option"

definition execution_failed :: "string \<Rightarrow> exec_result" where
  \<comment> \<open>the \<^verbatim>\<open>except Exception as e\<close> branch\<close>
  "execution_failed e = \<lparr>success = False, data = None, row_count = 0, error = Some e\<rparr>"

definition execute_query :: "world \<Rightarrow> pyval \<Rightarrow> store \<Rightarrow> exec_result \<times> store" where
  "execute_query w sql s0 =
     (let s = s0\<lparr>calls := calls s0 @ [sql]\<rparr> in
      case db w sql of
        ConnectRaises e \<Rightarrow> (execution_failed e, s)
      | ExecuteRaises e \<Rightarrow> (execution_failed e, conn_dealloc Open (psycopg2_connect s))
      | FetchRaises e \<Rightarrow> (execution_failed e, conn_dealloc Open (psycopg2_connect s))
      | Rows results \<Rightarrow>
          (\<lparr>success = True, data = Some results, row_count = length results, error = None\<rparr>,
           conn_dealloc Closed (conn_close (psycopg2_connect s))))"


section \<open>\<^verbatim>\<open>AnswerGenerator\<close>\<close>

fun join :: "string \<Rightarrow> string list \<Rightarrow> string" where
  \<comment> \<open>\<^verbatim>\<open>sep.join(xs)\<close>\<close>
  "join sep [] = []"
| "join sep [x] = x"
| "join sep (x # y # ys) = x @ sep @ join sep (y # ys)"

definition format_results_simple :: "world \<Rightarrow> string \<Rightarrow> pydict list \<Rightarrow> string" where
  \<comment> \<open>\<^verbatim>\<open>_format_results_simple\<close>\<close>
  "format_results_simple w query results =
     (case results of
        [[(k, v)]] \<Rightarrow> ''Result: '' @ cell_str w v
      | _ \<Rightarrow>
          ''Found '' @ str_nat (length results) @ '' results:\<newline>\<newline>'' @
          concat (map (\<lambda>(i, row).
                    str_nat i @ ''. '' @
                    join '', '' (map (\<lambda>(k, v). k @ '': '' @ cell_str w v) row) @ ''\<newline>'')
                  (zip [1 ..< 6] (take 5 results))) @
          (if length results > 5
           then ''\<newline>... and '' @ str_nat (length results - 5) @ '' more results''
           else []))"

definition generate_answer :: "world \<Rightarrow> string \<Rightarrow> pyval \<Rightarrow> pydict list option \<Rightarrow> string" where
  "generate_answer w natural_query sql_query results =
     (case results of
        None \<Rightarrow> ''No results found for your query.''
      | Some [] \<Rightarrow> ''No results found for your query.''
      | Some rows \<Rightarrow>
          (case render w natural_query sql_query rows of
             Some content \<Rightarrow> content
           | None \<Rightarrow> format_results_simple w natural_query rows))"


section \<open>\<^verbatim>\<open>ClearQuoteNLSQL.process_query\<close>\<close>

definition opt_str :: "string option \<Rightarrow> pyval" where
  "opt_str x = (case x of None \<Rightarrow> PNone | Some s \<Rightarrow> PStr s)"

definition opt_rows :: "pydict list option \<Rightarrow> pyval" where
  "opt_rows x = (case x of None \<Rightarrow> PNone | Some rows \<Rightarrow> PList (map PDict rows))"

definition process_query :: "world \<Rightarrow> string \<Rightarrow> store \<Rightarrow> (py_error + pydict) \<times> store" where
  "process_query w natural_language_query s =
     (let sql_result = generate_sql w natural_language_query in
      if \<not> truthy (dget sql_result ''success'' PNone) then
        (Inr [(''success'', PBool False),
              (''error'', dget sql_result ''error'' PNone),
              (''stage'', PStr ''sql_generation'')], s)
      else
        case map_of sql_result ''sql'' of
          None \<Rightarrow> (Inl (KeyError ''sql''), s)
        | Some sql_query \<Rightarrow>
            (case execute_query w sql_query s of
               (exec_result, s') \<Rightarrow>
                 if \<not> success exec_result then
                   (Inr [(''success'', PBool False),
                         (''error'', opt_str (error exec_result)),
                         (''sql'', sql_query),
                         (''stage'', PStr ''execution'')], s')
                 else
                   (Inr [(''success'', PBool True),
                         (''query'', PStr natural_language_query),
                         (''sql'', sql_query),
                         (''assumptions'', dget sql_result ''assumptions'' (PList [])),
                         (''confidence'', dget sql_result ''confidence'' (PFloat 0)),
                         (''row_count'', PInt (int (row_count exec_result))),
                         (''data'', opt_rows (data exec_result)),
                         (''answer'',
                            PStr (generate_answer w natural_language_query sql_query
                                    (data exec_result))),
                         (''stage'', PStr ''complete'')], s')))"


section \<open>A concrete world for the examples\<close>

definition example_world :: "pyval \<Rightarrow> db_outcome \<Rightarrow> world" where
  \<comment> \<open>the translation service answers \<open>response\<close>, the store behaves as \<open>outcome\<close>,
      the rendering service is down\<close>
  "example_world response outcome =
     \<lparr>kw_order = written_order,
      llm = (\<lambda>q. Parsed response),
      db = (\<lambda>sql. outcome),
      render = (\<lambda>q sql rows. None),
      cell_str = (\<lambda>v. case v of PInt i \<Rightarrow> str_int i | PStr s \<Rightarrow> s | _ \<Rightarrow> ''?'')\<rparr>"

definition idle :: store where
  "idle = \<lparr>open_connections = 0, calls = []\<rparr>"


section \<open>The four checks of \<^verbatim>\<open>validate_query\<close>, each on its own\<close>

definition forbidden_hit :: "string \<Rightarrow> bool" where
  "forbidden_hit q \<longleftrightarrow> (\<exists>k\<in>FORBIDDEN_KEYWORDS. contains k (upper q))"

definition not_a_select :: "string \<Rightarrow> bool" where
  "not_a_select q \<longleftrightarrow> \<not> startswith (strip (upper q)) ''SELECT''"

definition multiple_statements :: "string \<Rightarrow> bool" where
  "multiple_statements q \<longleftrightarrow> count q CHR '';'' > 1"

definition injection_hit :: "string \<Rightarrow> bool" where
  "injection_hit q \<longleftrightarrow> (\<exists>pr\<in>set injection_patterns. re_search (snd pr) q)"

definition first_hit :: "nat \<Rightarrow> string \<Rightarrow> bool" where
  "first_hit i q \<longleftrightarrow>
     i < length injection_patterns \<and> re_search (snd (injection_patterns ! i)) q \<and>
     (\<forall>pr\<in>set (take i injection_patterns). \<not> re_search (snd pr) q)"


section \<open>Statements and row-limiting clauses, in the words of the specification\<close>

text \<open>
  The specification speaks of a query that has, or lacks, a row-limiting clause.  The
  code has no such notion (it looks for the letters \<^verbatim>\<open>LIMIT\<close>), so these definitions
  follow the specification, not the code.  A statement ends in a row-limiting clause
  when, its trailing semicolons apart, it ends in the word \<^verbatim>\<open>LIMIT\<close> (in any letter
  case, whitespace before it) followed by whitespace and a number.  A statement is
  plain when, its trailing semicolons apart, it holds no semicolon and opens no comment.
\<close>

definition is_digit :: "char \<Rightarrow> bool" where
  "is_digit c \<longleftrightarrow> c \<in> set ''0123456789''"

definition plain_statement :: "string \<Rightarrow> bool" where
  "plain_statement q \<longleftrightarrow>
     (let a = rstrip q CHR '';'' in
      CHR '';'' \<notin> set a \<and> \<not> contains ''--'' a \<and> \<not> contains ''/*'' a)"

definition ends_in_limit_clause :: "string \<Rightarrow> bool" where
  "ends_in_limit_clause q \<longleftrightarrow>
     (let r = rev (rstrip q CHR '';''); d = dropWhile is_digit r in
      takeWhile is_digit r \<noteq> [] \<and> 7 \<le> length d \<and>
      is_space (d ! 0) \<and> upper (rev (take 5 (drop 1 d))) = ''LIMIT'' \<and> is_space (d ! 6))"


section \<open>Text lemmas\<close>

lemma contains_iff: "contains sub s \<longleftrightarrow> (\<exists>a b. s = a @ sub @ b)"
proof (induction s)
  case Nil
  then show ?case by auto
next
  case (Cons x s)
  show ?case
  proof
    assume "contains sub (x # s)"
    then consider "prefix sub (x # s)" | "contains sub s" by auto
    then show "\<exists>a b. x # s = a @ sub @ b"
    proof cases
      case 1
      then obtain b where "x # s = sub @ b" by (auto simp: prefix_def)
      then have "x # s = [] @ sub @ b" by simp
      then show ?thesis by blast
    next
      case 2
      with Cons.IH obtain a b where "s = a @ sub @ b" by blast
      then have "x # s = (x # a) @ sub @ b" by simp
      then show ?thesis by blast
    qed
  next
    assume "\<exists>a b. x # s = a @ sub @ b"
    then obtain a b where ab: "x # s = a @ sub @ b" by blast
    show "contains sub (x # s)"
    proof (cases a)
      case Nil
      with ab have "prefix sub (x # s)" by (simp add: prefix_def)
      then show ?thesis by simp
    next
      case (Cons y a')
      with ab have "s = a' @ sub @ b" by simp
      with Cons.IH have "contains sub s" by blast
      then show ?thesis by simp
    qed
  qed
qed

lemma upper_append: "upper (a @ b) = upper a @ upper b"
  by (simp add: upper_def)

lemma upper_Nil: "upper [] = []"
  by (simp add: upper_def)

lemma upper_Cons: "upper (c # s) = to_upper c # upper s"
  by (simp add: upper_def)

lemma contains_mono: "contains p a \<Longrightarrow> contains p (a @ b)"
  unfolding contains_iff by (metis append.assoc)

lemma prefix_before_separator:
  assumes "prefix p (u @ c # v)" and "c \<notin> set p"
  shows "prefix p u"
proof -
  from assms(1) consider "prefix p u" | w where "p = u @ w" "prefix w (c # v)"
    by (auto simp: prefix_append)
  then show ?thesis
  proof cases
    case 1
    then show ?thesis .
  next
    case 2
    with assms(2) have "w = []" by (cases w) auto
    with 2 show ?thesis by simp
  qed
qed

lemma contains_before_separator:
  assumes "c \<notin> set p" and "p \<noteq> []"
  shows "contains p (a @ c # b) \<longleftrightarrow> contains p a \<or> contains p b"
proof (induction a)
  case Nil
  from assms have "\<not> prefix p (c # b)" by (cases p) auto
  then show ?case using assms(2) by simp
next
  case (Cons x a)
  have "prefix p (x # a @ c # b) \<longleftrightarrow> prefix p (x # a)"
    using prefix_before_separator [OF _ assms(1), of "x # a" b]
    by (metis append_Cons prefix_prefix)
  with Cons.IH show ?case by auto
qed

lemma occurrences_before_separator:
  assumes "c \<notin> set p" and "\<not> contains p a"
  shows "occurrences p (a @ c # b) = occurrences p (c # b)"
  using assms(2)
proof (induction a)
  case Nil
  then show ?case by simp
next
  case (Cons x a)
  then have "\<not> prefix p (x # a)" and "\<not> contains p a" by simp_all
  with prefix_before_separator [OF _ assms(1), of "x # a" b] Cons.IH
  show ?case by auto
qed

lemma occurrences_without_head:
  assumes "p \<noteq> []" and "hd p \<notin> set s"
  shows "occurrences p s = 0"
  using assms by (induction s) (auto simp: prefix_def neq_Nil_conv)

lemma digit_char_digit: "d < 10 \<Longrightarrow> digit_char d \<in> set ''0123456789''"
  unfolding digit_char_def by (rule nth_mem) simp

lemma str_nat_digits: "set (str_nat n) \<subseteq> set ''0123456789''"
proof (induction n rule: str_nat.induct)
  case (1 n)
  show ?case
  proof (cases "n < 10")
    case True
    with digit_char_digit [of n] show ?thesis by (subst str_nat.simps) simp
  next
    case False
    with 1 digit_char_digit [of "n mod 10"] show ?thesis by (subst str_nat.simps) simp
  qed
qed

lemma str_int_chars: "set (str_int i) \<subseteq> set ''-0123456789''"
proof -
  have d: "set (str_nat k) \<subseteq> set (CHR ''-'' # ''0123456789'')" for k
    using str_nat_digits [of k] set_subset_Cons by (rule subset_trans)
  show ?thesis
  proof (cases "i < 0")
    case True
    then have "str_int i = CHR ''-'' # str_nat (nat (- i))" by (simp add: str_int_def)
    with d [of "nat (- i)"] show ?thesis by (simp del: set_simps add: list.set(2))
  next
    case False
    then have "str_int i = str_nat (nat i)" by (simp add: str_int_def)
    with d [of "nat i"] show ?thesis by simp
  qed
qed

lemma to_upper_cap_chars: "\<forall>c\<in>set '' LIMIT-0123456789;''. to_upper c = c"
  by code_simp

lemma to_upper_cap_char: "c \<in> set '' LIMIT-0123456789;'' \<Longrightarrow> to_upper c = c"
  using to_upper_cap_chars by blast

lemma upper_str_int: "upper (str_int i) = str_int i"
proof -
  have "set ''-0123456789'' \<subseteq> set '' LIMIT-0123456789;''" by code_simp
  with str_int_chars [of i] have "set (str_int i) \<subseteq> set '' LIMIT-0123456789;''"
    by (rule subset_trans)
  then have "\<forall>c\<in>set (str_int i). to_upper c = c"
    using to_upper_cap_char by blast
  then show ?thesis unfolding upper_def by (simp add: map_idI)
qed

lemma rstrip_decomp: "\<exists>k. q = rstrip q c @ replicate k c"
proof -
  have "rev q = takeWhile (\<lambda>x. x = c) (rev q) @ dropWhile (\<lambda>x. x = c) (rev q)" by simp
  then have "q = rev (dropWhile (\<lambda>x. x = c) (rev q)) @ rev (takeWhile (\<lambda>x. x = c) (rev q))"
    by (metis rev_append rev_rev_ident)
  moreover have "\<forall>x\<in>set (rev (takeWhile (\<lambda>x. x = c) (rev q))). x = c"
    by (auto dest: set_takeWhileD)
  then have "rev (takeWhile (\<lambda>x. x = c) (rev q)) =
               replicate (length (rev (takeWhile (\<lambda>x. x = c) (rev q)))) c"
    by (metis replicate_length_same)
  ultimately show ?thesis unfolding rstrip_def by metis
qed

lemma contains_rstrip: "contains p (upper (rstrip q c)) \<Longrightarrow> contains p (upper q)"
proof -
  assume h: "contains p (upper (rstrip q c))"
  obtain k where "q = rstrip q c @ replicate k c" using rstrip_decomp by blast
  then have "upper q = upper (rstrip q c) @ upper (replicate k c)"
    by (metis upper_append)
  with contains_mono [OF h] show ?thesis by simp
qed

lemma occurrences_LIMIT_tail:
  "occurrences ''LIMIT'' (CHR '' '' # ''LIMIT '' @ str_int n @ '';'') = 1"
proof -
  have "CHR ''L'' \<notin> set (str_int n @ '';'')" using str_int_chars [of n] by auto
  then have "occurrences ''LIMIT'' (str_int n @ '';'') = 0"
    by (intro occurrences_without_head) simp_all
  then show ?thesis by simp
qed

lemma to_upper_not_letter:
  assumes "c \<notin> set ''ABCDEFGHIJKLMNOPQRSTUVWXYZ''" and "to_upper x = c"
  shows "x = c"
proof (cases "map_of (zip ''abcdefghijklmnopqrstuvwxyz'' ''ABCDEFGHIJKLMNOPQRSTUVWXYZ'') x")
  case None
  with assms(2) show ?thesis by (simp add: to_upper_def)
next
  case (Some u)
  then have "u \<in> set ''ABCDEFGHIJKLMNOPQRSTUVWXYZ''"
    by (meson map_of_SomeD set_zip_rightD)
  moreover from Some assms(2) have "u = c" by (simp add: to_upper_def)
  ultimately show ?thesis using assms(1) by simp
qed

lemma contains_hd: "contains k s \<Longrightarrow> k \<noteq> [] \<Longrightarrow> hd k \<in> set s"
  unfolding contains_iff by (cases k) auto

lemma upper_has_no_x: "CHR ''x'' \<notin> set (upper q)"
proof
  assume "CHR ''x'' \<in> set (upper q)"
  then obtain c where c: "to_upper c = CHR ''x''" by (auto simp: upper_def)
  then have "c = CHR ''x''" by (rule to_upper_not_letter [rotated]) simp
  with c show False by (simp add: to_upper_def)
qed


section \<open>The forbidden-operation scan\<close>

lemma first_forbidden_None: "first_forbidden ks u = None \<longleftrightarrow> (\<forall>k\<in>set ks. \<not> contains k u)"
  by (induction ks) auto

lemma first_forbidden_Some: "first_forbidden ks u = Some k \<Longrightarrow> k \<in> set ks \<and> contains k u"
  by (induction ks) (auto split: if_splits)

lemma written_order_iteration: "iteration_of written_order"
  unfolding iteration_of_def written_order_def FORBIDDEN_KEYWORDS_def by simp

lemma first_forbidden_order:
  assumes "iteration_of ks"
  shows "first_forbidden ks u = None \<longleftrightarrow> first_forbidden written_order u = None"
  using assms written_order_iteration unfolding first_forbidden_None iteration_of_def by simp

lemma validate_query_order:
  assumes "iteration_of ks" and "first_forbidden written_order (upper q) = None"
  shows "validate_query ks q = validate_query written_order q"
proof -
  from assms have "first_forbidden ks (upper q) = None"
    by (simp add: first_forbidden_order)
  with assms(2) show ?thesis by (simp add: validate_query_def)
qed

text \<open>
  Claim C2: every string that contains a forbidden token, at any position and in any
  letter case, is rejected with the forbidden-operation reason naming that token.

  The code breaks this for the token \<^verbatim>\<open>xp_cmdshell\<close>.  The scan looks for each token in
  the upper-cased query, and this one token is written in lower case, so no upper-cased
  text contains it: the scan never finds this token, and whatever the iteration order,
  the query below holds the token and is accepted.
\<close>

theorem xp_cmdshell_not_detected:
  assumes "iteration_of ks"
  shows "(\<forall>q. \<not> contains ''xp_cmdshell'' (upper q)) \<and>
         contains ''xp_cmdshell'' ''SELECT xp_cmdshell FROM vehicle_cards'' \<and>
         validate_query ks ''SELECT xp_cmdshell FROM vehicle_cards'' = (True, None)"
proof -
  have never: "\<not> contains ''xp_cmdshell'' (upper q)" for q
    using contains_hd [of "''xp_cmdshell''" "upper q"] upper_has_no_x [of q] by auto
  have n: "first_forbidden written_order (upper ''SELECT xp_cmdshell FROM vehicle_cards'') = None"
    by code_simp
  have v: "validate_query written_order ''SELECT xp_cmdshell FROM vehicle_cards'' = (True, None)"
    by code_simp
  have c: "contains ''xp_cmdshell'' ''SELECT xp_cmdshell FROM vehicle_cards''"
    by code_simp
  from validate_query_order [OF assms n] v c never show ?thesis by simp
qed

theorem xp_cmdshell_not_detected_witness:
  "iteration_of written_order \<and>
   validate_query written_order ''SELECT xp_cmdshell FROM vehicle_cards'' = (True, None)"
  using xp_cmdshell_not_detected [OF written_order_iteration] written_order_iteration by simp


section \<open>The order of the checks\<close>

lemma first_injection_None:
  "first_injection ps q = None \<longleftrightarrow> (\<forall>pr\<in>set ps. \<not> re_search (snd pr) q)"
proof (induction ps)
  case Nil
  then show ?case by simp
next
  case (Cons pr ps)
  obtain p r where pr: "pr = (p, r)" by (cases pr)
  show ?case using Cons.IH by (cases "re_search r q") (simp_all add: pr)
qed

lemma first_injection_Some:
  "first_injection ps q = Some p \<Longrightarrow>
     \<exists>i<length ps. p = fst (ps ! i) \<and> re_search (snd (ps ! i)) q \<and>
                   (\<forall>j<i. \<not> re_search (snd (ps ! j)) q)"
proof (induction ps)
  case Nil
  then show ?case by simp
next
  case (Cons pr ps)
  obtain p' r where pr: "pr = (p', r)" by (cases pr)
  show ?case
  proof (cases "re_search r q")
    case True
    with Cons.prems pr have "p = p'" by simp
    with True pr have "0 < length (pr # ps) \<and> p = fst ((pr # ps) ! 0) \<and>
        re_search (snd ((pr # ps) ! 0)) q \<and> (\<forall>j<0. \<not> re_search (snd ((pr # ps) ! j)) q)"
      by simp
    then show ?thesis by blast
  next
    case False
    with Cons.prems pr have "first_injection ps q = Some p" by simp
    with Cons.IH obtain i where i: "i < length ps" "p = fst (ps ! i)" "re_search (snd (ps ! i)) q"
      "\<forall>j<i. \<not> re_search (snd (ps ! j)) q" by blast
    have "\<forall>j<Suc i. \<not> re_search (snd ((pr # ps) ! j)) q"
      using i(4) False pr by (auto simp: less_Suc_eq_0_disj)
    with i have "Suc i < length (pr # ps) \<and> p = fst ((pr # ps) ! Suc i) \<and>
        re_search (snd ((pr # ps) ! Suc i)) q \<and> (\<forall>j<Suc i. \<not> re_search (snd ((pr # ps) ! j)) q)"
      by simp
    then show ?thesis by blast
  qed
qed

lemma forbidden_hit_iff:
  assumes "iteration_of ks"
  shows "forbidden_hit q \<longleftrightarrow> first_forbidden ks (upper q) \<noteq> None"
  using assms by (simp add: forbidden_hit_def first_forbidden_None iteration_of_def)

lemma injection_hit_iff: "injection_hit q \<longleftrightarrow> first_injection injection_patterns q \<noteq> None"
  by (simp add: injection_hit_def first_injection_None)

lemma validate_query_forbidden:
  assumes "iteration_of ks" and "forbidden_hit q"
  shows "\<exists>k\<in>FORBIDDEN_KEYWORDS. contains k (upper q) \<and>
           validate_query ks q = (False, Some (''Forbidden operation detected: '' @ k))"
proof -
  from assms obtain k where k: "first_forbidden ks (upper q) = Some k"
    by (auto simp: forbidden_hit_iff)
  from first_forbidden_Some [OF k] assms(1) have "k \<in> FORBIDDEN_KEYWORDS" "contains k (upper q)"
    by (simp_all add: iteration_of_def)
  moreover from k have "validate_query ks q = (False, Some (''Forbidden operation detected: '' @ k))"
    by (simp add: validate_query_def)
  ultimately show ?thesis by blast
qed

lemma upper_case_token_found:
  assumes "iteration_of ks" and "k \<in> FORBIDDEN_KEYWORDS" and "q = a @ w @ b" and "upper w = k"
  shows "\<exists>k'\<in>FORBIDDEN_KEYWORDS. contains k' (upper q) \<and>
           validate_query ks q = (False, Some (''Forbidden operation detected: '' @ k'))"
proof -
  from assms(3,4) have "upper q = upper a @ k @ upper b" by (simp add: upper_append)
  then have "contains k (upper q)" unfolding contains_iff by blast
  with assms(2) have "forbidden_hit q" unfolding forbidden_hit_def by blast
  with assms(1) show ?thesis by (rule validate_query_forbidden)
qed

lemma validate_query_later:
  assumes "iteration_of ks" and "\<not> forbidden_hit q"
  shows "validate_query ks q =
           (if not_a_select q then (False, Some ''Query must start with SELECT'')
            else if multiple_statements q then (False, Some ''Multiple statements not allowed'')
            else case first_injection injection_patterns q of
                   Some p \<Rightarrow> (False, Some (''Potential SQL injection detected: '' @ p))
                 | None \<Rightarrow> (True, None))"
proof -
  from assms have "first_forbidden ks (upper q) = None" by (simp add: forbidden_hit_iff)
  then show ?thesis
    by (simp add: validate_query_def not_a_select_def multiple_statements_def)
qed

lemma validate_query_injection:
  assumes "iteration_of ks" and "\<not> forbidden_hit q" and "\<not> not_a_select q"
    and "\<not> multiple_statements q" and "injection_hit q"
  shows "\<exists>i. first_hit i q \<and>
             validate_query ks q =
               (False, Some (''Potential SQL injection detected: '' @ fst (injection_patterns ! i)))"
proof -
  from assms(5) obtain p where p: "first_injection injection_patterns q = Some p"
    by (auto simp: injection_hit_iff)
  from first_injection_Some [OF p] obtain i where i: "i < length injection_patterns"
    "p = fst (injection_patterns ! i)" "re_search (snd (injection_patterns ! i)) q"
    "\<forall>j<i. \<not> re_search (snd (injection_patterns ! j)) q" by blast
  have "\<forall>pr\<in>set (take i injection_patterns). \<not> re_search (snd pr) q"
  proof
    fix pr
    assume "pr \<in> set (take i injection_patterns)"
    then obtain j where "j < i" and "pr = injection_patterns ! j"
      by (auto simp: in_set_conv_nth)
    with i(4) show "\<not> re_search (snd pr) q" by simp
  qed
  with i have "first_hit i q" "p = fst (injection_patterns ! i)"
    by (simp_all add: first_hit_def)
  moreover from p assms have
    "validate_query ks q = (False, Some (''Potential SQL injection detected: '' @ p))"
    by (simp add: validate_query_later)
  ultimately show ?thesis by blast
qed

text \<open>
  Claim C7: \<^verbatim>\<open>validate_query\<close> applies its checks in the fixed order forbidden-operation
  scan, SELECT-start check, single-statement check, injection-pattern scan, and the
  first check that fails in that order decides the reason.

  Within the forbidden scan the reason names a token that the upper-cased query
  contains (which one, when several occur, is up to the iteration order of the set);
  within the injection scan it names the first pattern of the list that matches.
\<close>

theorem validate_query_check_order:
  assumes "iteration_of ks"
  shows "(forbidden_hit q \<longrightarrow>
            (\<exists>k\<in>FORBIDDEN_KEYWORDS. contains k (upper q) \<and>
               validate_query ks q = (False, Some (''Forbidden operation detected: '' @ k)))) \<and>
         (\<not> forbidden_hit q \<and> not_a_select q \<longrightarrow>
            validate_query ks q = (False, Some ''Query must start with SELECT'')) \<and>
         (\<not> forbidden_hit q \<and> \<not> not_a_select q \<and> multiple_statements q \<longrightarrow>
            validate_query ks q = (False, Some ''Multiple statements not allowed'')) \<and>
         (\<not> forbidden_hit q \<and> \<not> not_a_select q \<and> \<not> multiple_statements q \<and> injection_hit q \<longrightarrow>
            (\<exists>i. first_hit i q \<and>
               validate_query ks q =
                 (False, Some (''Potential SQL injection detected: '' @
                                 fst (injection_patterns ! i))))) \<and>
         (\<not> forbidden_hit q \<and> \<not> not_a_select q \<and> \<not> multiple_statements q \<and> \<not> injection_hit q \<longrightarrow>
            validate_query ks q = (True, None))"
  using validate_query_forbidden [OF assms, of q] validate_query_later [OF assms, of q]
    validate_query_injection [OF assms, of q]
  by (auto simp: injection_hit_iff)

theorem validate_query_check_order_witness:
  "forbidden_hit ''DROP x;; -- y'' \<and> not_a_select ''DROP x;; -- y'' \<and>
   multiple_statements ''DROP x;; -- y'' \<and> injection_hit ''DROP x;; -- y'' \<and>
   validate_query written_order ''DROP x;; -- y'' =
     (False, Some ''Forbidden operation detected: DROP'') \<and>
   validate_query written_order ''x;; -- y'' = (False, Some ''Query must start with SELECT'') \<and>
   validate_query written_order ''SELECT 1;; -- y'' =
     (False, Some ''Multiple statements not allowed'') \<and>
   validate_query written_order ''SELECT 1; -- y'' =
     (False, Some (''Potential SQL injection detected: --'' @ [CHR 0x5C] @ ''s'')) \<and>
   validate_query written_order ''SELECT 1;'' = (True, None)"
proof -
  have a: "forbidden_hit ''DROP x;; -- y''" "not_a_select ''DROP x;; -- y''"
    "multiple_statements ''DROP x;; -- y''" "injection_hit ''DROP x;; -- y''"
    "validate_query written_order ''DROP x;; -- y'' =
       (False, Some ''Forbidden operation detected: DROP'')"
    by code_simp+
  have b: "\<not> forbidden_hit ''x;; -- y''" "not_a_select ''x;; -- y''"
    by code_simp+
  have c: "\<not> forbidden_hit ''SELECT 1;; -- y''" "\<not> not_a_select ''SELECT 1;; -- y''"
    "multiple_statements ''SELECT 1;; -- y''"
    by code_simp+
  have d: "\<not> forbidden_hit ''SELECT 1; -- y''" "\<not> not_a_select ''SELECT 1; -- y''"
    "\<not> multiple_statements ''SELECT 1; -- y''" "injection_hit ''SELECT 1; -- y''"
    "validate_query written_order ''SELECT 1; -- y'' =
       (False, Some (''Potential SQL injection detected: --'' @ [CHR 0x5C] @ ''s''))"
    by code_simp+
  have e: "\<not> forbidden_hit ''SELECT 1;''" "\<not> not_a_select ''SELECT 1;''"
    "\<not> multiple_statements ''SELECT 1;''" "\<not> injection_hit ''SELECT 1;''"
    by code_simp+
  note t = validate_query_check_order [OF written_order_iteration]
  from t [of "''x;; -- y''"] b
  have "validate_query written_order ''x;; -- y'' = (False, Some ''Query must start with SELECT'')"
    by blast
  moreover from t [of "''SELECT 1;; -- y''"] c
  have "validate_query written_order ''SELECT 1;; -- y'' =
          (False, Some ''Multiple statements not allowed'')"
    by blast
  moreover from t [of "''SELECT 1;''"] e
  have "validate_query written_order ''SELECT 1;'' = (True, None)"
    by blast
  ultimately show ?thesis using a d by blast
qed

text \<open>
  Claim C8: every string that matches one of the injection patterns is rejected, and the
  reason is the injection-pattern reason that identifies the matched pattern.

  As stated this fails: the injection scan is the last check, so a string that also
  fails an earlier check is rejected with that check's reason.  The query below matches
  the first pattern and is rejected for the forbidden token \<^verbatim>\<open>DROP\<close>.
\<close>

theorem injection_reason_counterexample:
  "injection_hit ''SELECT 1; DROP TABLE vehicle_cards'' \<and>
   validate_query written_order ''SELECT 1; DROP TABLE vehicle_cards'' =
     (False, Some ''Forbidden operation detected: DROP'')"
  by code_simp

text \<open>
  Claim C8, amended: every string that matches one of the injection patterns is
  rejected; when it passes the forbidden scan, the SELECT-start check and the
  single-statement check, the reason is the injection-pattern reason naming the first
  pattern of the list that matches.
\<close>

theorem injection_match_rejected:
  assumes "iteration_of ks" and "injection_hit q"
  shows "\<not> fst (validate_query ks q) \<and>
         (\<not> forbidden_hit q \<and> \<not> not_a_select q \<and> \<not> multiple_statements q \<longrightarrow>
            (\<exists>i. first_hit i q \<and>
               validate_query ks q =
                 (False, Some (''Potential SQL injection detected: '' @
                                 fst (injection_patterns ! i)))))"
proof (cases "forbidden_hit q")
  case True
  with validate_query_forbidden [OF assms(1)] show ?thesis by fastforce
next
  case False
  from assms(2) obtain p where "first_injection injection_patterns q = Some p"
    by (auto simp: injection_hit_iff)
  with validate_query_later [OF assms(1) False] validate_query_injection [OF assms(1) False]
    assms(2)
  show ?thesis by auto
qed

theorem injection_match_rejected_witness:
  "injection_hit ''SELECT pg_sleep (5)'' \<and>
   first_hit 6 ''SELECT pg_sleep (5)'' \<and>
   validate_query written_order ''SELECT pg_sleep (5)'' =
     (False, Some (''Potential SQL injection detected: sleep'' @
                     [CHR 0x5C] @ ''s*'' @ [CHR 0x5C] @ ''(''))"
proof -
  have h: "injection_hit ''SELECT pg_sleep (5)''" "first_hit 6 ''SELECT pg_sleep (5)''"
    "validate_query written_order ''SELECT pg_sleep (5)'' =
       (False, Some (''Potential SQL injection detected: sleep'' @
                       [CHR 0x5C] @ ''s*'' @ [CHR 0x5C] @ ''(''))"
    by code_simp+
  from injection_match_rejected [OF written_order_iteration h(1)] h show ?thesis by simp
qed


section \<open>The row cap\<close>

text \<open>
  Claim C10: a query that contains the letters \<^verbatim>\<open>limit\<close>, in any letter case and
  anywhere (inside an identifier, an alias or a string literal too), is returned
  unchanged by \<^verbatim>\<open>sanitize_limit\<close>: no row cap is appended to it.
\<close>

theorem sanitize_limit_unchanged_when_limit_occurs:
  assumes "query = a @ w @ b" and "upper w = ''LIMIT''"
  shows "sanitize_limit query max_limit = query"
proof -
  from assms have "upper query = upper a @ ''LIMIT'' @ upper b"
    by (simp add: upper_append)
  then have "contains ''LIMIT'' (upper query)"
    unfolding contains_iff by blast
  then show ?thesis by (simp add: sanitize_limit_def)
qed

theorem sanitize_limit_unchanged_when_limit_occurs_witness:
  "upper ''limit'' = ''LIMIT'' \<and>
   sanitize_limit ''SELECT unlimited_km FROM vehicle_cards'' 1000 =
     ''SELECT unlimited_km FROM vehicle_cards''"
proof -
  have u: "upper ''limit'' = ''LIMIT''" by code_simp
  have "''SELECT unlimited_km FROM vehicle_cards'' = ''SELECT un'' @ ''limit'' @ ''ed_km FROM vehicle_cards''"
    by simp
  from sanitize_limit_unchanged_when_limit_occurs [OF this u, of 1000] u show ?thesis by simp
qed

lemma sanitize_limit_appends_cap:
  "(\<not> contains ''LIMIT'' (upper q) \<longrightarrow>
      sanitize_limit q n = rstrip q CHR '';'' @ '' LIMIT '' @ str_int n @ '';'' \<and>
      occurrences ''LIMIT'' (upper (sanitize_limit q n)) = 1) \<and>
   (contains ''LIMIT'' (upper q) \<longrightarrow> sanitize_limit q n = q) \<and>
   (iteration_of ks \<longrightarrow> validate_query ks ''SELECT * FROM vehicle_cards'' = (True, None)) \<and>
   sanitize_limit ''SELECT * FROM vehicle_cards'' 1000 = ''SELECT * FROM vehicle_cards LIMIT 1000;''"
proof -
  have one: "occurrences ''LIMIT'' (upper (sanitize_limit q n)) = 1"
    if no: "\<not> contains ''LIMIT'' (upper q)"
  proof -
    from no have a: "\<not> contains ''LIMIT'' (upper (rstrip q CHR '';''))"
      using contains_rstrip by blast
    have "upper (sanitize_limit q n) =
            upper (rstrip q CHR '';'') @ CHR '' '' # ''LIMIT '' @ str_int n @ '';''"
      using no
      by (simp add: sanitize_limit_def upper_append upper_str_int upper_Cons upper_Nil to_upper_def)
    then show ?thesis
      using occurrences_before_separator [OF _ a, of "CHR '' ''" "''LIMIT '' @ str_int n @ '';''"]
        occurrences_LIMIT_tail [of n]
      by simp
  qed
  have acc: "validate_query ks ''SELECT * FROM vehicle_cards'' = (True, None)" if "iteration_of ks"
  proof -
    have "first_forbidden written_order (upper ''SELECT * FROM vehicle_cards'') = None"
      by code_simp
    moreover have "validate_query written_order ''SELECT * FROM vehicle_cards'' = (True, None)"
      by code_simp
    ultimately show ?thesis using validate_query_order [OF that] by simp
  qed
  have "sanitize_limit ''SELECT * FROM vehicle_cards'' 1000 = ''SELECT * FROM vehicle_cards LIMIT 1000;''"
    by code_simp
  with one acc show ?thesis by (simp add: sanitize_limit_def)
qed


section \<open>Validating the normalized SQL again\<close>

lemma match_here_extend: "match_here p s \<Longrightarrow> match_here p (s @ t)"
proof (induction p s rule: match_here.induct)
  case (4 a r)
  then show ?case by (cases t) auto
qed auto

lemma re_search_extend: "re_search p s \<Longrightarrow> re_search p (s @ t)"
proof (induction s)
  case Nil
  then have "match_here p ([] @ t)" using match_here_extend [of p "[]" t] by simp
  then show ?case by (cases t) simp_all
next
  case (Cons x s)
  then show ?case using match_here_extend [of p "x # s" t] by auto
qed

lemma re_search_at: "match_here p v \<Longrightarrow> re_search p (u @ v)"
proof (induction u)
  case Nil
  then show ?case by (cases v) simp_all
next
  case (Cons x u)
  then show ?case by simp
qed

lemma match_here_first_atom: "match_here (One a # r) s \<Longrightarrow> \<exists>x\<in>set s. atom_ok a x"
  by (cases s) auto

lemma re_search_first_atom: "re_search (One a # r) s \<Longrightarrow> \<exists>x\<in>set s. atom_ok a x"
  by (induction s) auto

lemma match_here_last_atom:
  "match_here (p @ [One a]) t \<Longrightarrow> \<exists>x\<in>set t. atom_ok a x"
proof (induction p t rule: match_here.induct)
  case (1 s)
  then show ?case by (cases s) auto
qed auto

lemma re_search_last_atom:
  "re_search (p @ [One a]) t \<Longrightarrow> \<exists>x\<in>set t. atom_ok a x"
proof (induction t)
  case Nil
  then show ?case using match_here_last_atom [of p a "[]"] by simp
next
  case (Cons x t)
  then show ?case using match_here_last_atom [of p a "x # t"] by auto
qed

lemma match_here_cut:
  assumes "\<forall>x\<in>set t. \<not> atom_ok a x"
  shows "match_here (p @ [One a]) (s @ t) \<Longrightarrow> match_here (p @ [One a]) s"
proof (induction p s rule: match_here.induct)
  case (1 s)
  then show ?case using assms match_here_last_atom [of "[]" a t] by (cases s) auto
next
  case (2 b r)
  then show ?case using assms match_here_last_atom [of "One b # r" a t] by auto
next
  case (3 b r x s)
  then show ?case by auto
next
  case (4 b r)
  then show ?case using assms match_here_last_atom [of "Many b # r" a t] by auto
next
  case (5 b r x s)
  then show ?case by auto
qed

lemma re_search_cut:
  assumes "\<forall>x\<in>set t. \<not> atom_ok a x"
  shows "re_search (p @ [One a]) (s @ t) \<Longrightarrow> re_search (p @ [One a]) s"
proof (induction s)
  case Nil
  then show ?case using assms re_search_last_atom [of p a t] by auto
next
  case (Cons x s)
  then show ?case using match_here_cut [OF assms, of p "x # s"] by auto
qed


lemma dash_only: "atom_ok (Lit CHR ''-'') x \<Longrightarrow> x = CHR ''-''"
proof -
  assume "atom_ok (Lit CHR ''-'') x"
  then have "to_upper x = CHR ''-''" by (simp add: to_upper_def)
  then show ?thesis by (rule to_upper_not_letter [rotated]) simp
qed

lemma cap_chars: "set (CHR '' '' # ''LIMIT '' @ str_int n @ '';'') \<subseteq> set '' LIMIT-0123456789;''"
proof -
  have "set ''-0123456789'' \<subseteq> set '' LIMIT-0123456789;''" by code_simp
  with str_int_chars [of n] have "set (str_int n) \<subseteq> set '' LIMIT-0123456789;''"
    by (rule subset_trans)
  moreover have "set '' LIMIT ;'' \<subseteq> set '' LIMIT-0123456789;''" by code_simp
  ultimately show ?thesis by auto
qed

lemma no_semicolon_in_str_int: "CHR '';'' \<notin> set (str_int n)"
  using str_int_chars [of n] by auto

lemma no_comment_in_number: "\<not> re_search (lits ''--'' @ [One Space]) (str_int n @ '';'')"
proof -
  let ?dd = "lits ''--'' @ [One Space]"
  have dd: "?dd = One (Lit CHR ''-'') # [One (Lit CHR ''-''), One Space]"
    by (simp add: lits_def)
  have digits: "\<not> re_search ?dd (str_nat k @ '';'')" for k
  proof
    assume "re_search ?dd (str_nat k @ '';'')"
    then obtain x where "x \<in> set (str_nat k @ '';'')" "atom_ok (Lit CHR ''-'') x"
      unfolding dd using re_search_first_atom by blast
    with dash_only have "CHR ''-'' \<in> set (str_nat k @ '';'')" by blast
    with str_nat_digits [of k] show False by auto
  qed
  show ?thesis
  proof (cases "n < 0")
    case False
    with digits [of "nat n"] show ?thesis by (simp add: str_int_def)
  next
    case True
    have "\<not> match_here ?dd (CHR ''-'' # str_nat (nat (- n)) @ '';'')"
    proof
      assume "match_here ?dd (CHR ''-'' # str_nat (nat (- n)) @ '';'')"
      then have "match_here (One (Lit CHR ''-'') # [One Space]) (str_nat (nat (- n)) @ '';'')"
        by (simp add: dd)
      then obtain x where "x \<in> set (str_nat (nat (- n)) @ '';'')" "atom_ok (Lit CHR ''-'') x"
        using match_here_first_atom by blast
      with dash_only have "CHR ''-'' \<in> set (str_nat (nat (- n)) @ '';'')" by blast
      with str_nat_digits [of "nat (- n)"] show False by auto
    qed
    with digits [of "nat (- n)"] True show ?thesis by (simp add: str_int_def)
  qed
qed

lemma no_comment_in_cap:
  "\<not> re_search (lits ''--'' @ [One Space]) (CHR '' '' # ''LIMIT '' @ str_int n @ '';'')"
  using no_comment_in_number [of n] by (simp add: lits_def to_upper_def)

lemma comment_at_cap:
  assumes "\<not> re_search (lits ''--'' @ [One Space]) a"
    and "re_search (lits ''--'' @ [One Space]) (a @ CHR '' '' # t)"
    and "\<not> re_search (lits ''--'' @ [One Space]) (CHR '' '' # t)"
  shows "suffix ''--'' a"
  using assms(1,2)
proof (induction a)
  case Nil
  with assms(3) show ?case by simp
next
  case (Cons x a)
  let ?dd = "lits ''--'' @ [One Space]"
  have dd: "?dd = [One (Lit CHR ''-''), One (Lit CHR ''-''), One Space]"
    by (simp add: lits_def)
  from Cons.prems(1) have nm: "\<not> match_here ?dd (x # a)" and na: "\<not> re_search ?dd a" by simp_all
  from Cons.prems(2) consider "match_here ?dd (x # a @ CHR '' '' # t)" | "re_search ?dd (a @ CHR '' '' # t)"
    by auto
  then show ?case
  proof cases
    case 2
    with Cons.IH na have "suffix ''--'' a" by blast
    then show ?thesis by (rule suffix_ConsI)
  next
    case 1
    show ?thesis
    proof (cases a)
      case Nil
      with 1 have "atom_ok (Lit CHR ''-'') CHR '' ''" by (simp add: dd)
      then show ?thesis by (simp add: to_upper_def)
    next
      case (Cons y a')
      note a = this
      show ?thesis
      proof (cases a')
        case Nil
        with 1 a have "atom_ok (Lit CHR ''-'') x" "atom_ok (Lit CHR ''-'') y" by (simp_all add: dd)
        then have "x = CHR ''-''" "y = CHR ''-''" using dash_only by blast+
        with a Nil show ?thesis by simp
      next
        case (Cons z a'')
        with 1 a have "match_here ?dd (x # a)" by (simp add: dd)
        with nm show ?thesis by simp
      qed
    qed
  qed
qed


lemma upper_cap: "upper (CHR '' '' # ''LIMIT '' @ str_int n @ '';'') = CHR '' '' # ''LIMIT '' @ str_int n @ '';''"
  by (simp add: upper_append upper_str_int upper_Cons upper_Nil to_upper_def)

lemma other_patterns_end_outside_cap:
  "\<forall>pr\<in>set injection_patterns.
     snd pr = lits ''--'' @ [One Space] \<or>
     (snd pr \<noteq> [] \<and>
      (case last (snd pr) of
         One a \<Rightarrow> (\<forall>x\<in>set '' LIMIT-0123456789;''. \<not> atom_ok a x)
       | Many a \<Rightarrow> False))"
  by code_simp

lemma comment_pattern_listed:
  "(''--'' @ [CHR 0x5C] @ ''s'', lits ''--'' @ [One Space]) \<in> set injection_patterns"
  by (simp add: injection_patterns_def)

lemma injection_hit_after_cap:
  assumes "\<not> injection_hit q"
  shows "injection_hit (rstrip q CHR '';'' @ CHR '' '' # ''LIMIT '' @ str_int n @ '';'') \<longleftrightarrow>
         suffix ''--'' (rstrip q CHR '';'')"
proof
  let ?a = "rstrip q CHR '';''"
  let ?t = "''LIMIT '' @ str_int n @ '';''"
  let ?dd = "lits ''--'' @ [One Space]"
  obtain k where q: "q = ?a @ replicate k CHR '';''" using rstrip_decomp by blast
  have na: "\<not> re_search (snd pr) ?a" if "pr \<in> set injection_patterns" for pr
  proof
    assume "re_search (snd pr) ?a"
    then have "re_search (snd pr) (?a @ replicate k CHR '';'')" by (rule re_search_extend)
    with q that assms show False by (auto simp: injection_hit_def)
  qed
  {
    assume "injection_hit (?a @ CHR '' '' # ?t)"
    then obtain pr where pr: "pr \<in> set injection_patterns"
      and hit: "re_search (snd pr) (?a @ CHR '' '' # ?t)"
      by (auto simp: injection_hit_def)
    from other_patterns_end_outside_cap pr
    consider "snd pr = ?dd"
      | "snd pr \<noteq> []" "case last (snd pr) of
           One a \<Rightarrow> (\<forall>x\<in>set '' LIMIT-0123456789;''. \<not> atom_ok a x) | Many a \<Rightarrow> False"
      by blast
    then show "suffix ''--'' ?a"
    proof cases
      case 1
      with na [OF pr] hit no_comment_in_cap [of n] show ?thesis
        using comment_at_cap [of ?a ?t] by simp
    next
      case 2
      then obtain b where b: "last (snd pr) = One b"
        and out: "\<forall>x\<in>set '' LIMIT-0123456789;''. \<not> atom_ok b x"
        by (cases "last (snd pr)") auto
      from 2(1) b have shape: "snd pr = butlast (snd pr) @ [One b]"
        by (metis append_butlast_last_id)
      from out cap_chars [of n] have "\<forall>x\<in>set (CHR '' '' # ?t). \<not> atom_ok b x" by blast
      from re_search_cut [OF this, of "butlast (snd pr)" ?a] hit shape
      have "re_search (snd pr) ?a" by simp
      with na [OF pr] show ?thesis by simp
    qed
  }
  {
    assume "suffix ''--'' ?a"
    then obtain u where u: "?a = u @ ''--''" by (auto simp: suffix_def)
    have "match_here ?dd (''--'' @ CHR '' '' # ?t)"
      by (simp add: lits_def is_space_def)
    then have "re_search ?dd (u @ ''--'' @ CHR '' '' # ?t)" by (rule re_search_at)
    with u have "re_search ?dd (?a @ CHR '' '' # ?t)" by simp
    with comment_pattern_listed show "injection_hit (?a @ CHR '' '' # ?t)"
      unfolding injection_hit_def by force
  }
qed


lemma contains_cut_last:
  assumes "k \<noteq> []" and "last k \<notin> set b" and "contains k (a @ b)"
  shows "contains k a"
proof -
  from assms(3) obtain u v where "a @ b = u @ k @ v" unfolding contains_iff by blast
  then have "a @ b = (u @ k) @ v" by simp
  then obtain w where w: "a = (u @ k) @ w \<and> w @ b = v \<or> a @ w = u @ k \<and> b = w @ v"
    unfolding append_eq_append_conv2 by blast
  show ?thesis
  proof (cases "w = []")
    case True
    with w have "a = u @ k @ []" by auto
    then show ?thesis unfolding contains_iff by blast
  next
    case False
    from w show ?thesis
    proof
      assume "a = (u @ k) @ w \<and> w @ b = v"
      then have "a = u @ k @ w" by simp
      then show ?thesis unfolding contains_iff by blast
    next
      assume h: "a @ w = u @ k \<and> b = w @ v"
      from False have "last (a @ w) = last w" by simp
      moreover from assms(1) have "last (u @ k) = last k" by simp
      ultimately have "last k = last w" using h by simp
      with False have "last k \<in> set w" using last_in_set by metis
      with h assms(2) show ?thesis by simp
    qed
  qed
qed

lemma no_token_after_terminator: "c \<notin> set d \<Longrightarrow> \<not> contains (c # x # xs) (d @ [c])"
  by (induction d) auto

lemma tokens_fit:
  "\<forall>k\<in>set written_order.
     k \<noteq> [] \<and>
     (last k \<notin> set '' LIMIT-0123456789;'' \<or>
      (CHR '' '' \<notin> set k \<and> \<not> contains k ''LIMIT'' \<and>
       (hd k \<notin> set ''-0123456789;'' \<or> (hd k = CHR '';'' \<and> 2 \<le> length k))))"
  by code_simp

lemma token_after_cap:
  assumes "k \<in> set written_order" and "\<not> contains k a"
  shows "\<not> contains k (a @ CHR '' '' # ''LIMIT '' @ str_int n @ '';'')"
proof
  let ?d = "str_int n @ '';''"
  assume hit: "contains k (a @ CHR '' '' # ''LIMIT '' @ str_int n @ '';'')"
  from tokens_fit assms(1) have ne: "k \<noteq> []" by blast
  from tokens_fit assms(1) consider
      "last k \<notin> set '' LIMIT-0123456789;''"
    | "CHR '' '' \<notin> set k" "\<not> contains k ''LIMIT''"
      "hd k \<notin> set ''-0123456789;'' \<or> (hd k = CHR '';'' \<and> 2 \<le> length k)"
    by blast
  then show False
  proof cases
    case 1
    have "last k \<notin> set (CHR '' '' # ''LIMIT '' @ str_int n @ '';'')"
    proof
      assume "last k \<in> set (CHR '' '' # ''LIMIT '' @ str_int n @ '';'')"
      with cap_chars [of n] have "last k \<in> set '' LIMIT-0123456789;''" by (rule subsetD)
      with 1 show False by (rule notE)
    qed
    from contains_cut_last [OF ne this hit] assms(2) show False by simp
  next
    case 2
    from hit assms(2) contains_before_separator [OF 2(1) ne, of a "''LIMIT '' @ ?d"]
    have "contains k (''LIMIT'' @ CHR '' '' # ?d)" by simp
    with 2(2) contains_before_separator [OF 2(1) ne, of "''LIMIT''" ?d]
    have in_d: "contains k ?d" by simp
    from 2(3) show False
    proof
      assume out: "hd k \<notin> set ''-0123456789;''"
      have "set ''-0123456789'' \<subseteq> set ''-0123456789;''" by code_simp
      with str_int_chars [of n] have num: "set (str_int n) \<subseteq> set ''-0123456789;''"
        by (rule subset_trans)
      have semi: "CHR '';'' \<in> set ''-0123456789;''" by code_simp
      from contains_hd [OF in_d ne] have "hd k \<in> set (str_int n) \<or> hd k = CHR '';''"
        by (simp only: set_append list.set Un_iff insert_iff empty_iff) blast
      then show False
      proof
        assume "hd k \<in> set (str_int n)"
        with num have "hd k \<in> set ''-0123456789;''" by (rule subsetD)
        with out show False by (rule notE)
      next
        assume "hd k = CHR '';''"
        with semi have "hd k \<in> set ''-0123456789;''" by (simp only:)
        with out show False by (rule notE)
      qed
    next
      assume "hd k = CHR '';'' \<and> 2 \<le> length k"
      then obtain x xs where "k = CHR '';'' # x # xs"
        by (cases k; cases "tl k") auto
      with in_d no_token_after_terminator [OF no_semicolon_in_str_int [of n], of x xs]
      show False by simp
    qed
  qed
qed

lemma forbidden_hit_after_cap:
  assumes "\<not> forbidden_hit q"
  shows "\<not> forbidden_hit (rstrip q CHR '';'' @ CHR '' '' # ''LIMIT '' @ str_int n @ '';'')"
proof
  let ?a = "rstrip q CHR '';''"
  assume "forbidden_hit (?a @ CHR '' '' # ''LIMIT '' @ str_int n @ '';'')"
  then obtain k where k: "k \<in> FORBIDDEN_KEYWORDS"
    and hit: "contains k (upper ?a @ CHR '' '' # ''LIMIT '' @ str_int n @ '';'')"
    using upper_cap [of n] by (auto simp: forbidden_hit_def upper_append)
  from k written_order_iteration have w: "k \<in> set written_order" by (simp add: iteration_of_def)
  from k assms have "\<not> contains k (upper q)" by (auto simp: forbidden_hit_def)
  then have "\<not> contains k (upper ?a)" using contains_rstrip by blast
  from token_after_cap [OF w this] hit show False by simp
qed

lemma rstrip_ws_prefix: "prefix (rstrip_ws y) y"
proof -
  have "rev y = takeWhile is_space (rev y) @ dropWhile is_space (rev y)" by simp
  then have "y = rev (dropWhile is_space (rev y)) @ rev (takeWhile is_space (rev y))"
    by (metis rev_append rev_rev_ident)
  then show ?thesis unfolding rstrip_ws_def by (metis prefixI)
qed

lemma rstrip_ws_id:
  assumes "y \<noteq> []" and "\<not> is_space (last y)"
  shows "rstrip_ws y = y"
proof -
  from assms have "dropWhile is_space (rev y) = rev y"
    by (simp add: dropWhile_eq_self_iff hd_rev)
  then show ?thesis by (simp add: rstrip_ws_def)
qed

lemma not_a_select_after_cap:
  assumes "\<not> not_a_select q"
  shows "\<not> not_a_select (rstrip q CHR '';'' @ CHR '' '' # ''LIMIT '' @ str_int n @ '';'')"
proof -
  let ?a = "rstrip q CHR '';''"
  let ?t = "CHR '' '' # ''LIMIT '' @ str_int n @ '';''"
  obtain k where q: "q = ?a @ replicate k CHR '';''" using rstrip_decomp by blast
  have "upper (replicate k CHR '';'') = replicate k CHR '';''"
    by (simp add: upper_def to_upper_def)
  with q have uq: "upper q = upper ?a @ replicate k CHR '';''"
    by (metis upper_append)
  from assms have "prefix ''SELECT'' (rstrip_ws (dropWhile is_space (upper q)))"
    by (simp add: not_a_select_def startswith_def strip_def)
  with rstrip_ws_prefix have sel: "prefix ''SELECT'' (dropWhile is_space (upper q))"
    using prefix_order.trans by blast
  have some: "\<exists>x\<in>set (upper ?a). \<not> is_space x"
  proof (rule ccontr)
    assume "\<not> (\<exists>x\<in>set (upper ?a). \<not> is_space x)"
    then have "dropWhile is_space (upper q) = dropWhile is_space (replicate k CHR '';'')"
      by (simp add: uq)
    also have "\<dots> = replicate k CHR '';''"
      by (cases k) (simp_all add: is_space_def)
    finally have "dropWhile is_space (upper q) = replicate k CHR '';''" .
    with sel have "prefix ''SELECT'' (replicate k CHR '';'')" by (simp only:)
    then show False by (cases k) simp_all
  qed
  then obtain x where x: "x \<in> set (upper ?a)" "\<not> is_space x" by blast
  have "dropWhile is_space (upper q) = dropWhile is_space (upper ?a) @ replicate k CHR '';''"
    unfolding uq using x by (rule dropWhile_append1)
  with sel have "prefix ''SELECT'' (dropWhile is_space (upper ?a) @ replicate k CHR '';'')" by simp
  then have core: "prefix ''SELECT'' (dropWhile is_space (upper ?a))"
  proof (cases k)
    case 0
    then show "prefix ''SELECT'' (dropWhile is_space (upper ?a) @ replicate k CHR '';'') \<Longrightarrow> ?thesis"
      by simp
  next
    case (Suc j)
    assume "prefix ''SELECT'' (dropWhile is_space (upper ?a) @ replicate k CHR '';'')"
    with Suc have "prefix ''SELECT'' (dropWhile is_space (upper ?a) @ CHR '';'' # replicate j CHR '';'')"
      by simp
    then show ?thesis by (rule prefix_before_separator) simp
  qed
  let ?y = "dropWhile is_space (upper ?a) @ ?t"
  from x have "dropWhile is_space (upper ?a @ ?t) = ?y" by (rule dropWhile_append1)
  moreover have "rstrip_ws ?y = ?y"
    by (rule rstrip_ws_id) (simp_all add: is_space_def)
  moreover from core have "prefix ''SELECT'' ?y" by (rule prefix_prefix)
  ultimately have "prefix ''SELECT'' (strip (upper ?a @ ?t))" by (simp add: strip_def)
  then show ?thesis
    using upper_cap [of n] by (simp add: not_a_select_def startswith_def upper_append)
qed

lemma multiple_statements_after_cap:
  "multiple_statements (rstrip q CHR '';'' @ CHR '' '' # ''LIMIT '' @ str_int n @ '';'') \<longleftrightarrow>
   CHR '';'' \<in> set (rstrip q CHR '';'')"
proof -
  have "filter (\<lambda>x. x = CHR '';'') (str_int n) = []"
    using no_semicolon_in_str_int [of n] by (auto simp: filter_empty_conv)
  then have "count (rstrip q CHR '';'' @ CHR '' '' # ''LIMIT '' @ str_int n @ '';'') CHR '';'' =
             count (rstrip q CHR '';'') CHR '';'' + 1"
    by (simp add: count_def)
  moreover have "0 < count (rstrip q CHR '';'') CHR '';'' \<longleftrightarrow> CHR '';'' \<in> set (rstrip q CHR '';'')"
    by (auto simp: count_def filter_empty_conv)
  ultimately show ?thesis by (simp add: multiple_statements_def)
qed

lemma validate_query_accepted_iff:
  assumes "iteration_of ks"
  shows "validate_query ks q = (True, None) \<longleftrightarrow>
         \<not> forbidden_hit q \<and> \<not> not_a_select q \<and> \<not> multiple_statements q \<and> \<not> injection_hit q"
proof (cases "forbidden_hit q")
  case True
  with validate_query_forbidden [OF assms] show ?thesis by fastforce
next
  case False
  with validate_query_later [OF assms False] show ?thesis
    by (auto simp: injection_hit_iff split: option.splits)
qed

lemma sanitize_limit_has_limit: "contains ''LIMIT'' (upper (sanitize_limit q n))"
proof (cases "contains ''LIMIT'' (upper q)")
  case True
  then show ?thesis by (simp add: sanitize_limit_def)
next
  case False
  have "upper (sanitize_limit q n) =
          (upper (rstrip q CHR '';'') @ '' '') @ ''LIMIT'' @ ('' '' @ str_int n @ '';'')"
    using False upper_cap [of n] by (simp add: sanitize_limit_def upper_append)
  then show ?thesis unfolding contains_iff by blast
qed

text \<open>
  Which accepted queries keep their verdict when the cap is appended: those that,
  without their trailing semicolons, contain no semicolon and do not end in \<^verbatim>\<open>--\<close>.
\<close>

lemma revalidation_characterised:
  assumes "iteration_of ks" and "validate_query ks q = (True, None)"
  shows "sanitize_limit (sanitize_limit q n) m = sanitize_limit q n \<and>
         (contains ''LIMIT'' (upper q) \<longrightarrow>
            validate_query ks (sanitize_limit q n) = (True, None)) \<and>
         (\<not> contains ''LIMIT'' (upper q) \<longrightarrow>
            (validate_query ks (sanitize_limit q n) = (True, None) \<longleftrightarrow>
             CHR '';'' \<notin> set (rstrip q CHR '';'') \<and> \<not> suffix ''--'' (rstrip q CHR '';'')))"
proof -
  have idem: "sanitize_limit (sanitize_limit q n) m = sanitize_limit q n"
    using sanitize_limit_has_limit [of q n] by (simp add: sanitize_limit_def [of "sanitize_limit q n"])
  have same: "validate_query ks (sanitize_limit q n) = (True, None)"
    if "contains ''LIMIT'' (upper q)"
    using that assms(2) by (simp add: sanitize_limit_def)
  have capped: "validate_query ks (sanitize_limit q n) = (True, None) \<longleftrightarrow>
                CHR '';'' \<notin> set (rstrip q CHR '';'') \<and> \<not> suffix ''--'' (rstrip q CHR '';'')"
    if no: "\<not> contains ''LIMIT'' (upper q)"
  proof -
    from assms have ok: "\<not> forbidden_hit q" "\<not> not_a_select q" "\<not> injection_hit q"
      by (simp_all add: validate_query_accepted_iff)
    from no have s: "sanitize_limit q n =
        rstrip q CHR '';'' @ CHR '' '' # ''LIMIT '' @ str_int n @ '';''"
      by (simp add: sanitize_limit_def)
    show ?thesis
      unfolding s validate_query_accepted_iff [OF assms(1)]
      using forbidden_hit_after_cap [OF ok(1), of n] not_a_select_after_cap [OF ok(2), of n]
        injection_hit_after_cap [OF ok(3), of n] multiple_statements_after_cap [of q n]
      by simp
  qed
  from idem same capped show ?thesis by blast
qed

section \<open>The row cap on plain statements\<close>

lemma ends_in_limit_clause_contains:
  assumes "ends_in_limit_clause q"
  shows "contains ''LIMIT'' (upper q)"
proof -
  let ?a = "rstrip q CHR '';''"
  let ?r = "rev ?a"
  let ?d = "dropWhile is_digit ?r"
  let ?w = "take 5 (drop 1 ?d)"
  from assms have w: "upper (rev ?w) = ''LIMIT''"
    by (simp add: ends_in_limit_clause_def Let_def)
  have "?r = takeWhile is_digit ?r @ ?d" by simp
  moreover have "?d = take 1 ?d @ ?w @ drop 5 (drop 1 ?d)"
    by (metis append_take_drop_id)
  ultimately have "?r = takeWhile is_digit ?r @ take 1 ?d @ ?w @ drop 5 (drop 1 ?d)"
    by metis
  then have "rev ?r = rev (drop 5 (drop 1 ?d)) @ rev ?w @ rev (take 1 ?d) @ rev (takeWhile is_digit ?r)"
    by (metis append.assoc rev_append)
  then have "?a = rev (drop 5 (drop 1 ?d)) @ rev ?w @ rev (take 1 ?d) @ rev (takeWhile is_digit ?r)"
    by simp
  then have "upper ?a = upper (rev (drop 5 (drop 1 ?d))) @ ''LIMIT'' @
               upper (rev (take 1 ?d) @ rev (takeWhile is_digit ?r))"
    using w by (metis upper_append)
  then have "contains ''LIMIT'' (upper ?a)" unfolding contains_iff by blast
  then show ?thesis by (rule contains_rstrip)
qed

lemma str_nat_not_empty: "str_nat k \<noteq> []"
  by (subst str_nat.simps) simp

lemma str_nat_is_digit: "x \<in> set (str_nat k) \<Longrightarrow> is_digit x"
  using str_nat_digits [of k] unfolding is_digit_def by (rule subsetD)

lemma rstrip_last: "rstrip (y @ [c]) c = rstrip y c"
  by (simp add: rstrip_def)

lemma rstrip_id:
  assumes "y \<noteq> []" and "last y \<noteq> c"
  shows "rstrip y c = y"
proof -
  from assms have "dropWhile (\<lambda>x. x = c) (rev y) = rev y"
    by (simp add: dropWhile_eq_self_iff hd_rev)
  then show ?thesis by (simp add: rstrip_def)
qed

lemma cap_is_limit_clause:
  assumes "0 \<le> n"
  shows "ends_in_limit_clause (a @ '' LIMIT '' @ str_int n @ '';'')"
proof -
  let ?D = "str_nat (nat n)"
  let ?y = "a @ '' LIMIT '' @ ?D"
  from assms have D: "str_int n = ?D" by (simp add: str_int_def)
  have dig: "\<And>x. x \<in> set (rev ?D) \<Longrightarrow> is_digit x" using str_nat_is_digit by simp
  have "last ?y = last ?D" using str_nat_not_empty [of "nat n"] by simp
  moreover have "last ?D \<in> set ?D" using str_nat_not_empty [of "nat n"] by simp
  ultimately have "is_digit (last ?y)" using str_nat_is_digit by metis
  then have "last ?y \<noteq> CHR '';''" by (auto simp: is_digit_def)
  then have "rstrip ?y CHR '';'' = ?y" by (intro rstrip_id) simp_all
  moreover have "a @ '' LIMIT '' @ str_int n @ '';'' = ?y @ [CHR '';'']" using D by simp
  ultimately have r: "rstrip (a @ '' LIMIT '' @ str_int n @ '';'') CHR '';'' = ?y"
    using rstrip_last [of ?y "CHR '';''"] by simp
  have rev_y: "rev ?y = rev ?D @ '' TIMIL '' @ rev a" by simp
  have nd: "\<not> is_digit CHR '' ''" by (simp add: is_digit_def)
  have "takeWhile is_digit (rev ?D @ '' TIMIL '' @ rev a) =
          rev ?D @ takeWhile is_digit ('' TIMIL '' @ rev a)"
    by (rule takeWhile_append2) (rule dig)
  with nd have t: "takeWhile is_digit (rev ?y) = rev ?D"
    unfolding rev_y by simp
  have "dropWhile is_digit (rev ?D @ '' TIMIL '' @ rev a) =
          dropWhile is_digit ('' TIMIL '' @ rev a)"
    by (rule dropWhile_append2) (rule dig)
  with nd have d: "dropWhile is_digit (rev ?y) = '' TIMIL '' @ rev a"
    unfolding rev_y by simp
  have u: "upper ''LIMIT'' = ''LIMIT''" by code_simp
  show ?thesis
    unfolding ends_in_limit_clause_def Let_def r t d
    using str_nat_not_empty [of "nat n"] u by (simp add: is_space_def)
qed


lemma suffix_contains: "suffix p a \<Longrightarrow> contains p a"
proof -
  assume "suffix p a"
  then obtain u where "a = u @ p @ []" by (auto simp: suffix_def)
  then show ?thesis unfolding contains_iff by blast
qed

text \<open>
  Claim C3: an accepted query without a row-limiting clause is normalized to SQL with
  exactly one such clause, carrying the configured cap; one that already has a clause is
  returned unchanged; and \<^verbatim>\<open>SELECT * FROM vehicle_cards\<close> with cap 1000 is accepted and
  normalized to exactly \<^verbatim>\<open>SELECT * FROM vehicle_cards LIMIT 1000\<close>.

  The last part fails: \<^verbatim>\<open>sanitize_limit\<close> ends what it appends with a semicolon.
\<close>

theorem scenario_A_counterexample:
  "validate_query written_order ''SELECT * FROM vehicle_cards'' = (True, None) \<and>
   sanitize_limit ''SELECT * FROM vehicle_cards'' 1000 \<noteq> ''SELECT * FROM vehicle_cards LIMIT 1000''"
  by code_simp

text \<open>
  Claim C3, amended: let an accepted query be a plain statement.  If the letters
  \<^verbatim>\<open>LIMIT\<close> do not occur in it (in any letter case), the normalized SQL is the query
  without its trailing semicolons followed by \<^verbatim>\<open> LIMIT <cap>;\<close> (for a cap that is not
  negative): \<^verbatim>\<open>LIMIT\<close> occurs exactly once in it, it ends in a row-limiting clause with
  the cap, and the validator accepts it.  If the query ends in a row-limiting clause,
  the normalized SQL is the query unchanged.  And \<^verbatim>\<open>SELECT * FROM vehicle_cards\<close> with
  cap 1000 is accepted and normalized to exactly
  \<^verbatim>\<open>SELECT * FROM vehicle_cards LIMIT 1000;\<close>, semicolon included.

  Nothing is said of a query with a semicolon before its end, with a comment, or with
  the letters \<^verbatim>\<open>LIMIT\<close> elsewhere than in a clause.
\<close>

theorem sanitize_limit_on_plain_statements:
  assumes "iteration_of ks" and "validate_query ks q = (True, None)" and "plain_statement q"
  shows "(\<not> contains ''LIMIT'' (upper q) \<and> 0 \<le> n \<longrightarrow>
            sanitize_limit q n = rstrip q CHR '';'' @ '' LIMIT '' @ str_int n @ '';'' \<and>
            occurrences ''LIMIT'' (upper (sanitize_limit q n)) = 1 \<and>
            ends_in_limit_clause (sanitize_limit q n) \<and>
            validate_query ks (sanitize_limit q n) = (True, None)) \<and>
         (ends_in_limit_clause q \<longrightarrow> sanitize_limit q n = q) \<and>
         validate_query ks ''SELECT * FROM vehicle_cards'' = (True, None) \<and>
         sanitize_limit ''SELECT * FROM vehicle_cards'' 1000 = ''SELECT * FROM vehicle_cards LIMIT 1000;''"
proof -
  note form = sanitize_limit_appends_cap [of q n ks]
  have capped: "sanitize_limit q n = rstrip q CHR '';'' @ '' LIMIT '' @ str_int n @ '';'' \<and>
      occurrences ''LIMIT'' (upper (sanitize_limit q n)) = 1 \<and>
      ends_in_limit_clause (sanitize_limit q n) \<and>
      validate_query ks (sanitize_limit q n) = (True, None)"
    if no: "\<not> contains ''LIMIT'' (upper q)" and n: "0 \<le> n"
  proof -
    from form no have s: "sanitize_limit q n = rstrip q CHR '';'' @ '' LIMIT '' @ str_int n @ '';''"
      and one: "occurrences ''LIMIT'' (upper (sanitize_limit q n)) = 1"
      by blast+
    from cap_is_limit_clause [OF n, of "rstrip q CHR '';''"] s
    have clause: "ends_in_limit_clause (sanitize_limit q n)" by simp
    from assms(3) have semi: "CHR '';'' \<notin> set (rstrip q CHR '';'')"
      and dash: "\<not> contains ''--'' (rstrip q CHR '';'')"
      by (simp_all add: plain_statement_def Let_def)
    from dash have "\<not> suffix ''--'' (rstrip q CHR '';'')" using suffix_contains by blast
    with revalidation_characterised [OF assms(1,2), of n n] no semi
    have "validate_query ks (sanitize_limit q n) = (True, None)" by blast
    with s one clause show ?thesis by blast
  qed
  have kept: "sanitize_limit q n = q" if "ends_in_limit_clause q"
    using ends_in_limit_clause_contains [OF that] by (simp add: sanitize_limit_def)
  from form assms(1) have "validate_query ks ''SELECT * FROM vehicle_cards'' = (True, None)"
    and "sanitize_limit ''SELECT * FROM vehicle_cards'' 1000 = ''SELECT * FROM vehicle_cards LIMIT 1000;''"
    by blast+
  with capped kept show ?thesis by blast
qed

theorem sanitize_limit_on_plain_statements_witness:
  "iteration_of written_order \<and>
   validate_query written_order ''select * from repairs;'' = (True, None) \<and>
   plain_statement ''select * from repairs;'' \<and>
   \<not> contains ''LIMIT'' (upper ''select * from repairs;'') \<and>
   sanitize_limit ''select * from repairs;'' 50 = ''select * from repairs LIMIT 50;'' \<and>
   ends_in_limit_clause ''select * from repairs LIMIT 50;'' \<and>
   validate_query written_order ''select * from repairs LIMIT 50;'' = (True, None) \<and>
   validate_query written_order ''select * from repairs limit 5'' = (True, None) \<and>
   plain_statement ''select * from repairs limit 5'' \<and>
   ends_in_limit_clause ''select * from repairs limit 5'' \<and>
   sanitize_limit ''select * from repairs limit 5'' 50 = ''select * from repairs limit 5''"
proof -
  have v: "validate_query written_order ''select * from repairs;'' = (True, None)"
    and p: "plain_statement ''select * from repairs;''"
    and n: "\<not> contains ''LIMIT'' (upper ''select * from repairs;'')"
    and s: "rstrip ''select * from repairs;'' CHR '';'' @ '' LIMIT '' @ str_int 50 @ '';'' =
            ''select * from repairs LIMIT 50;''"
    and v2: "validate_query written_order ''select * from repairs limit 5'' = (True, None)"
    and p2: "plain_statement ''select * from repairs limit 5''"
    and e2: "ends_in_limit_clause ''select * from repairs limit 5''"
    by code_simp+
  note t = sanitize_limit_on_plain_statements [OF written_order_iteration v p, of 50]
  from n have "\<not> contains ''LIMIT'' (upper ''select * from repairs;'') \<and> (0::int) \<le> 50"
    by simp
  with t have eq: "sanitize_limit ''select * from repairs;'' 50 =
      rstrip ''select * from repairs;'' CHR '';'' @ '' LIMIT '' @ str_int 50 @ '';''"
    and e: "ends_in_limit_clause (sanitize_limit ''select * from repairs;'' 50)"
    and a: "validate_query written_order (sanitize_limit ''select * from repairs;'' 50) = (True, None)"
    by blast+
  from eq s have eq': "sanitize_limit ''select * from repairs;'' 50 = ''select * from repairs LIMIT 50;''"
    by (simp only:)
  from e a have e': "ends_in_limit_clause ''select * from repairs LIMIT 50;''"
    and a': "validate_query written_order ''select * from repairs LIMIT 50;'' = (True, None)"
    by (simp_all only: eq')
  from sanitize_limit_on_plain_statements [OF written_order_iteration v2 p2, of 50] e2
  have k: "sanitize_limit ''select * from repairs limit 5'' 50 = ''select * from repairs limit 5''"
    by blast
  from written_order_iteration v p n eq' e' a' v2 p2 e2 k show ?thesis by blast
qed


section \<open>Validation after normalization\<close>

text \<open>
  Claim C9: validation followed by normalization is idempotent: for every accepted
  query, \<^verbatim>\<open>validate_query\<close> accepts its normalized form again, and normalizing that
  form again leaves it unchanged.

  The code breaks the first half.  \<^verbatim>\<open>sanitize_limit\<close> drops the terminator with
  \<^verbatim>\<open>rstrip(';')\<close> before it appends \<^verbatim>\<open> LIMIT 1000;\<close>, and misses it when whitespace
  follows: the accepted query below keeps its semicolon, so its normalized form has
  two statements and the validator rejects it.  (A query that ends in \<^verbatim>\<open>--\<close> is another
  such input: the appended text completes the comment pattern.)
\<close>

theorem normalized_sql_rejected_on_revalidation:
  "validate_query written_order ''SELECT 1; '' = (True, None) \<and>
   sanitize_limit ''SELECT 1; '' 1000 = ''SELECT 1;  LIMIT 1000;'' \<and>
   validate_query written_order (sanitize_limit ''SELECT 1; '' 1000) =
     (False, Some ''Multiple statements not allowed'')"
  by code_simp

lemma normalized_sql_with_cap_in_comment:
  "validate_query written_order ''SELECT * FROM vehicle_cards --'' = (True, None) \<and>
   sanitize_limit ''SELECT * FROM vehicle_cards --'' 1000 =
     ''SELECT * FROM vehicle_cards -- LIMIT 1000;'' \<and>
   \<not> fst (validate_query written_order (sanitize_limit ''SELECT * FROM vehicle_cards --'' 1000))"
  by code_simp


section \<open>The pipeline\<close>

lemma map_of_dset: "map_of (dset d k v) k' = (if k' = k then Some v else map_of d k')"
  by (induction d k v rule: dset.induct) auto

lemma dget_dset: "dget (dset d k v) k' dflt = (if k' = k then v else dget d k' dflt)"
  by (simp add: dget_def map_of_dset)

lemma validate_query_accepts: "fst (validate_query ks q) \<Longrightarrow> validate_query ks q = (True, None)"
  by (auto simp: validate_query_def Let_def split: option.splits if_splits)

lemma calls_execute_query: "calls (snd (execute_query w sql s)) = calls s @ [sql]"
  by (simp add: execute_query_def Let_def psycopg2_connect_def conn_close_def conn_dealloc_def
      split: db_outcome.splits)

text \<open>What generate_sql returns, by the verdict on the candidate.\<close>

lemma generate_sql_rejected:
  assumes "llm w q = Parsed (PDict d)" and "dget d ''sql'' (PStr []) = PStr c"
    and "\<not> fst (validate_query (kw_order w) c)"
  shows "generate_sql w q =
           [(''success'', PBool False),
            (''error'', PStr (''Generated SQL failed validation: '' @
               (case snd (validate_query (kw_order w) c) of None \<Rightarrow> ''None'' | Some r \<Rightarrow> r))),
            (''sql'', PStr c)]"
  using assms by (cases "validate_query (kw_order w) c") (simp add: generate_sql_def)

lemma generate_sql_accepted:
  assumes "llm w q = Parsed (PDict d)" and "dget d ''sql'' (PStr []) = PStr c"
    and "fst (validate_query (kw_order w) c)"
  shows "generate_sql w q = dset (dset d ''sql'' (PStr (sanitize_limit c 1000))) ''success'' (PBool True)"
  using assms by (cases "validate_query (kw_order w) c") (simp add: generate_sql_def)

lemma generate_sql_cases:
  obtains (failed) e where "generate_sql w q = translation_failed e"
  | (rejected) d c where "llm w q = Parsed (PDict d)" "dget d ''sql'' (PStr []) = PStr c"
      "\<not> fst (validate_query (kw_order w) c)"
  | (accepted) d c where "llm w q = Parsed (PDict d)" "dget d ''sql'' (PStr []) = PStr c"
      "fst (validate_query (kw_order w) c)"
proof (cases "llm w q")
  case (Raises e)
  then have "generate_sql w q = translation_failed e" by (simp add: generate_sql_def)
  then show ?thesis by (rule failed)
next
  case (Parsed v)
  show ?thesis
  proof (cases v)
    case (PDict d)
    show ?thesis
    proof (cases "dget d ''sql'' (PStr [])")
      case (PStr c)
      with Parsed PDict show ?thesis using rejected accepted by blast
    qed (use Parsed PDict failed in \<open>simp_all add: generate_sql_def\<close>)
  qed (use Parsed failed in \<open>simp_all add: generate_sql_def\<close>)
qed


lemma process_query_not_translated:
  assumes "\<not> truthy (dget (generate_sql w q) ''success'' PNone)"
  shows "process_query w q s =
           (Inr [(''success'', PBool False),
                 (''error'', dget (generate_sql w q) ''error'' PNone),
                 (''stage'', PStr ''sql_generation'')], s)"
  using assms by (simp add: process_query_def Let_def)

lemma process_query_failed:
  assumes "generate_sql w q = translation_failed e"
  shows "process_query w q s =
           (Inr [(''success'', PBool False),
                 (''error'', PStr (''Failed to generate SQL: '' @ e)),
                 (''stage'', PStr ''sql_generation'')], s)"
  using assms by (simp add: process_query_def Let_def translation_failed_def dget_def)

lemma process_query_rejected:
  assumes "llm w q = Parsed (PDict d)" and "dget d ''sql'' (PStr []) = PStr c"
    and "\<not> fst (validate_query (kw_order w) c)"
  shows "process_query w q s =
           (Inr [(''success'', PBool False),
                 (''error'', PStr (''Generated SQL failed validation: '' @
                    (case snd (validate_query (kw_order w) c) of None \<Rightarrow> ''None'' | Some r \<Rightarrow> r))),
                 (''stage'', PStr ''sql_generation'')], s)"
  by (simp add: process_query_def Let_def generate_sql_rejected [OF assms] dget_def)

lemma process_query_accepted:
  fixes w :: world and s :: store
  assumes "llm w q = Parsed (PDict d)" and "dget d ''sql'' (PStr []) = PStr c"
    and "fst (validate_query (kw_order w) c)"
  defines "sql \<equiv> PStr (sanitize_limit c 1000)"
  defines "x \<equiv> fst (execute_query w sql s)"
  shows "process_query w q s =
           (if \<not> success x then
              Inr [(''success'', PBool False),
                   (''error'', opt_str (error x)),
                   (''sql'', sql),
                   (''stage'', PStr ''execution'')]
            else
              Inr [(''success'', PBool True),
                   (''query'', PStr q),
                   (''sql'', sql),
                   (''assumptions'', dget d ''assumptions'' (PList [])),
                   (''confidence'', dget d ''confidence'' (PFloat 0)),
                   (''row_count'', PInt (int (row_count x))),
                   (''data'', opt_rows (data x)),
                   (''answer'', PStr (generate_answer w q sql (data x))),
                   (''stage'', PStr ''complete'')],
            snd (execute_query w sql s))"
  unfolding sql_def x_def
  by (simp add: process_query_def Let_def generate_sql_accepted [OF assms(1-3)] dget_dset
      map_of_dset split: prod.splits)

text \<open>
  When the executor is called.  A run adds nothing to the calls of \<^verbatim>\<open>execute_query\<close>,
  or it adds one call, and then the translation service answered an object whose
  \<^verbatim>\<open>sql\<close> is a string that \<^verbatim>\<open>validate_query\<close> accepted, and the argument of the call is
  that string after \<^verbatim>\<open>sanitize_limit\<close>.  When the candidate is rejected, no call is added.
\<close>

lemma executor_call_follows_acceptance:
  assumes "process_query w q s = (r, s')"
  shows "(calls s' = calls s \<or>
          (\<exists>d c. llm w q = Parsed (PDict d) \<and> dget d ''sql'' (PStr []) = PStr c \<and>
                 validate_query (kw_order w) c = (True, None) \<and>
                 calls s' = calls s @ [PStr (sanitize_limit c 1000)])) \<and>
         (\<forall>d c. llm w q = Parsed (PDict d) \<and> dget d ''sql'' (PStr []) = PStr c \<and>
                 \<not> fst (validate_query (kw_order w) c) \<longrightarrow> calls s' = calls s)"
proof (cases w q rule: generate_sql_cases)
  case (failed e)
  from process_query_failed [OF failed, of s] assms have "s' = s" by simp
  then show ?thesis by simp
next
  case (rejected d c)
  from process_query_rejected [OF rejected, of s] assms have "s' = s" by simp
  then show ?thesis by simp
next
  case (accepted d c)
  from process_query_accepted [OF accepted, of s] assms
  have "s' = snd (execute_query w (PStr (sanitize_limit c 1000)) s)" by simp
  then have "calls s' = calls s @ [PStr (sanitize_limit c 1000)]"
    by (simp add: calls_execute_query)
  with accepted validate_query_accepts [OF accepted(3)] show ?thesis by auto
qed

text \<open>
  Claim C1: in every run of \<^verbatim>\<open>process_query\<close> the executor is called only with SQL
  that the validator has accepted; a candidate that \<^verbatim>\<open>validate_query\<close> rejects is never
  passed to the executor.

  The code breaks the first part.  The validator sees the candidate; the executor is
  given the candidate after \<^verbatim>\<open>sanitize_limit\<close>, which nothing validates.  In the run below
  the candidate is accepted, the run completes, and the one call of the executor has an
  argument that \<^verbatim>\<open>validate_query\<close> rejects.
\<close>

theorem unvalidated_sql_reaches_executor:
  "validate_query written_order ''SELECT 1; '' = (True, None) \<and>
   process_query (example_world (PDict [(''sql'', PStr ''SELECT 1; '')]) (Rows []))
     ''give me one'' idle =
     (Inr [(''success'', PBool True), (''query'', PStr ''give me one''),
           (''sql'', PStr ''SELECT 1;  LIMIT 1000;''),
           (''assumptions'', PList []), (''confidence'', PFloat 0),
           (''row_count'', PInt 0), (''data'', PList []),
           (''answer'', PStr ''No results found for your query.''),
           (''stage'', PStr ''complete'')],
      \<lparr>open_connections = 0, calls = [PStr ''SELECT 1;  LIMIT 1000;'']\<rparr>) \<and>
   validate_query written_order ''SELECT 1;  LIMIT 1000;'' =
     (False, Some ''Multiple statements not allowed'')"
  by code_simp

text \<open>
  Claim C6: every result of \<^verbatim>\<open>process_query\<close> carries exactly one stage tag, one of
  \<^verbatim>\<open>sql_generation\<close>, \<^verbatim>\<open>execution\<close> and \<^verbatim>\<open>complete\<close>, and \<^verbatim>\<open>success\<close> is true exactly when
  the stage is \<^verbatim>\<open>complete\<close>.

  \<^verbatim>\<open>process_query\<close> always returns a dictionary (the subscript \<^verbatim>\<open>sql_result['sql']\<close>
  never raises), with one entry under \<^verbatim>\<open>stage\<close>.
\<close>

theorem stage_tag_unambiguous:
  "\<exists>r b. fst (process_query w q s) = Inr r \<and>
          length (filter (\<lambda>kv. fst kv = ''stage'') r) = 1 \<and>
          (\<exists>tag \<in> {''sql_generation'', ''execution'', ''complete''}.
              map_of r ''stage'' = Some (PStr tag)) \<and>
          map_of r ''success'' = Some (PBool b) \<and>
          (b \<longleftrightarrow> map_of r ''stage'' = Some (PStr ''complete''))"
proof (cases w q rule: generate_sql_cases)
  case (failed e)
  show ?thesis by (simp add: process_query_failed [OF failed])
next
  case (rejected d c)
  show ?thesis by (simp add: process_query_rejected [OF rejected])
next
  case (accepted d c)
  show ?thesis by (simp add: process_query_accepted [OF accepted])
qed

theorem stage_tag_unambiguous_witness:
  "fst (process_query (example_world (PDict [(''sql'', PStr ''DROP TABLE vehicle_cards'')]) (Rows []))
     ''remove everything'' idle) =
     Inr [(''success'', PBool False),
          (''error'', PStr ''Generated SQL failed validation: Forbidden operation detected: DROP''),
          (''stage'', PStr ''sql_generation'')]"
proof -
  let ?w = "example_world (PDict [(''sql'', PStr ''DROP TABLE vehicle_cards'')]) (Rows [])"
  have run: "fst (process_query ?w ''remove everything'' idle) =
     Inr [(''success'', PBool False),
          (''error'', PStr ''Generated SQL failed validation: Forbidden operation detected: DROP''),
          (''stage'', PStr ''sql_generation'')]"
    by code_simp
  from stage_tag_unambiguous [of ?w "''remove everything''" idle] run show ?thesis by simp
qed

text \<open>
  Claim C5: when the validator rejects the candidate, the result of \<^verbatim>\<open>process_query\<close>
  has \<^verbatim>\<open>success\<close> false, stage \<^verbatim>\<open>sql_generation\<close>, and carries the rejected SQL.

  The code breaks the last part.  \<^verbatim>\<open>generate_sql\<close> keeps the rejected candidate under
  \<^verbatim>\<open>sql\<close> in what it returns, and \<^verbatim>\<open>process_query\<close> builds its result from \<^verbatim>\<open>error\<close>
  alone: the result has no \<^verbatim>\<open>sql\<close> entry.  (The result of a failed execution does
  carry the SQL.)
\<close>

theorem rejected_sql_dropped_by_process_query:
  assumes "llm w q = Parsed (PDict d)" and "dget d ''sql'' (PStr []) = PStr c"
    and "\<not> fst (validate_query (kw_order w) c)"
  shows "\<exists>r. process_query w q s = (Inr r, s) \<and>
             map_of r ''success'' = Some (PBool False) \<and>
             map_of r ''stage'' = Some (PStr ''sql_generation'') \<and>
             map_of r ''sql'' = None \<and>
             map_of (generate_sql w q) ''sql'' = Some (PStr c)"
  by (simp add: process_query_rejected [OF assms] generate_sql_rejected [OF assms])

theorem rejected_sql_dropped_by_process_query_witness:
  "\<not> fst (validate_query written_order ''DROP TABLE vehicle_cards'') \<and>
   process_query (example_world (PDict [(''sql'', PStr ''DROP TABLE vehicle_cards'')]) (Rows []))
     ''remove everything'' idle =
     (Inr [(''success'', PBool False),
           (''error'', PStr ''Generated SQL failed validation: Forbidden operation detected: DROP''),
           (''stage'', PStr ''sql_generation'')], idle) \<and>
   map_of (generate_sql (example_world (PDict [(''sql'', PStr ''DROP TABLE vehicle_cards'')]) (Rows []))
     ''remove everything'') ''sql'' = Some (PStr ''DROP TABLE vehicle_cards'')"
proof -
  let ?w = "example_world (PDict [(''sql'', PStr ''DROP TABLE vehicle_cards'')]) (Rows [])"
  have a: "llm ?w ''remove everything'' = Parsed (PDict [(''sql'', PStr ''DROP TABLE vehicle_cards'')])"
    by (simp add: example_world_def)
  have b: "dget [(''sql'', PStr ''DROP TABLE vehicle_cards'')] ''sql'' (PStr []) =
           PStr ''DROP TABLE vehicle_cards''"
    by (simp add: dget_def)
  have v: "\<not> fst (validate_query written_order ''DROP TABLE vehicle_cards'')"
    by code_simp
  then have c: "\<not> fst (validate_query (kw_order ?w) ''DROP TABLE vehicle_cards'')"
    by (simp add: example_world_def)
  have run: "process_query ?w ''remove everything'' idle =
     (Inr [(''success'', PBool False),
           (''error'', PStr ''Generated SQL failed validation: Forbidden operation detected: DROP''),
           (''stage'', PStr ''sql_generation'')], idle)"
    by code_simp
  from rejected_sql_dropped_by_process_query [OF a b c, of idle] v run show ?thesis by simp
qed

text \<open>
  Claim C4: \<^verbatim>\<open>execute_query\<close> releases the connection it acquired on every exit path,
  the error path included: after any call, whether it returns rows or an error, the
  connection is closed.

  After the rows were fetched the connection is closed by \<^verbatim>\<open>conn.close()\<close>.  When
  \<^verbatim>\<open>cursor.execute\<close> or \<^verbatim>\<open>cursor.fetchall\<close> raises, the handler returns without closing
  it, and the connection is closed when the local \<^verbatim>\<open>conn\<close> is freed at the return.  When
  \<^verbatim>\<open>psycopg2.connect\<close> raises there is no connection.  In every case the call leaves as
  many connections open as it found.
\<close>

theorem connection_released_after_every_call:
  "open_connections (snd (execute_query w sql s)) = open_connections s \<and>
   (success (fst (execute_query w sql s)) \<longleftrightarrow> (\<exists>rows. db w sql = Rows rows))"
  by (cases "db w sql")
     (simp_all add: execute_query_def Let_def psycopg2_connect_def conn_close_def conn_dealloc_def
        execution_failed_def)

theorem connection_released_after_every_call_witness:
  "execute_query (example_world PNone (ExecuteRaises ''relation nowhere does not exist''))
     (PStr ''SELECT * FROM nowhere LIMIT 1000;'') idle =
     (\<lparr>success = False, data = None, row_count = 0,
        error = Some ''relation nowhere does not exist''\<rparr>,
      \<lparr>open_connections = 0, calls = [PStr ''SELECT * FROM nowhere LIMIT 1000;'']\<rparr>)"
proof -
  let ?w = "example_world PNone (ExecuteRaises ''relation nowhere does not exist'')"
  let ?r = "execute_query ?w (PStr ''SELECT * FROM nowhere LIMIT 1000;'') idle"
  have "fst ?r = execution_failed ''relation nowhere does not exist''"
    by (simp add: execute_query_def Let_def example_world_def)
  moreover have "calls (snd ?r) = [PStr ''SELECT * FROM nowhere LIMIT 1000;'']"
    by (simp add: calls_execute_query idle_def)
  moreover from connection_released_after_every_call [of ?w "PStr ''SELECT * FROM nowhere LIMIT 1000;''" idle]
  have "open_connections (snd ?r) = 0" by (simp add: idle_def)
  ultimately show ?thesis
    by (cases ?r) (simp add: execution_failed_def)
qed

end
